theory Spec2Isabelle
  imports Complex_Main "HOL-Library.Sublist" "HOL-Library.Multiset"
begin

section \<open>Strings: the functions of Go's strings package that main.go calls\<close>

text \<open>
  A Go string is a sequence of bytes, as \<^typ>\<open>string\<close> is.
  \<open>strings.HasSuffix(s, suffix)\<close> is
  \<open>len(s) >= len(suffix) && s[len(s)-len(suffix):] == suffix\<close>, and
  \<open>strings.TrimSuffix(s, suffix)\<close> returns \<open>s[:len(s)-len(suffix)]\<close> when
  \<open>HasSuffix(s, suffix)\<close> and \<open>s\<close> otherwise.
\<close>

definition HasSuffix :: "string \<Rightarrow> string \<Rightarrow> bool" where
  "HasSuffix s suf = (length suf \<le> length s \<and> drop (length s - length suf) s = suf)"

definition TrimSuffix :: "string \<Rightarrow> string \<Rightarrow> string" where
  "TrimSuffix s suf = (if HasSuffix s suf then take (length s - length suf) s else s)"

text \<open>
  \<open>strings.TrimSpace\<close> on a string of ASCII bytes removes the leading and the trailing
  bytes among tab, line feed, vertical tab, form feed, carriage return and space. (On a
  string with bytes from 0x80 on, Go decodes UTF-8 and also removes Unicode white space;
  the output of \<open>dig +short\<close> is ASCII, and that part is not modelled.)
\<close>

definition asciiSpace :: "char \<Rightarrow> bool" where
  "asciiSpace c = (c \<in> {CHR 0x09, CHR 0x0A, CHR 0x0B, CHR 0x0C, CHR 0x0D, CHR 0x20})"

definition TrimSpace :: "string \<Rightarrow> string" where
  "TrimSpace s = rev (dropWhile asciiSpace (rev (dropWhile asciiSpace s)))"

section \<open>The fingerprint store\<close>

text \<open>
  \<open>fingerprints\<close> has the Go type \<open>map[string]map[string]interface{}\<close>; the values
  of the inner maps are what \<open>encoding/json\<close> puts into an \<open>interface{}\<close>: nil, bool,
  float64, string, \<open>[]interface{}\<close> and \<open>map[string]interface{}\<close>. The payload of a
  number is never inspected by the code modelled here.
\<close>

datatype json =
    JNull
  | JBool bool
  | JNumber real
  | JString string
  | JArray "json list"
  | JObject "(string \<times> json) list"

type_synonym fingerprint = "string \<rightharpoonup> json"

type_synonym fingerprints = "string \<rightharpoonup> fingerprint"

text \<open>
  \<open>for _, fingerprint := range fingerprints\<close> visits every key of the Go map once, in an
  order that the language leaves unspecified and that may differ from one \<open>range\<close>
  statement to the next. The order is therefore an input of the model: \<open>ks\<close> is the
  sequence of keys in which one execution of the \<open>range\<close> statement visits the map, and
  \<open>range_values\<close> the sequence of values the loop body sees.
\<close>

definition range_order :: "fingerprints \<Rightarrow> string list \<Rightarrow> bool" where
  "range_order fps ks = (distinct ks \<and> set ks = dom fps)"

definition range_values :: "fingerprints \<Rightarrow> string list \<Rightarrow> fingerprint list" where
  "range_values fps ks = map (\<lambda>k. the (fps k)) ks"

section \<open>isVulnerableCNAME (main.go, lines 251-265)\<close>

text \<open>
  A failed type assertion \<open>x.(T)\<close> in its one-value form is a run-time panic.
\<close>

datatype panic = TypeAssertion

text \<open>
  The inner loop over \<open>cnameList\<close> (lines 257-262): \<open>Inr True\<close> when the loop reaches
  the \<open>return\<close> of line 260 for some pattern, \<open>Inr False\<close> when it runs to its end, a
  panic when \<open>c.(string)\<close> fails on an element that is reached.
\<close>

fun match_cnameList :: "string \<Rightarrow> json list \<Rightarrow> panic + bool" where
  "match_cnameList cname [] = Inr False"
| "match_cnameList cname (c # cs) =
     (case c of
        JString pattern \<Rightarrow>
          if HasSuffix cname pattern then Inr True else match_cnameList cname cs
      | _ \<Rightarrow> Inl TypeAssertion)"

text \<open>
  The outer loop (lines 255-263) over the fingerprints in the order the \<open>range\<close>
  statement yields them, and the \<open>return false, false\<close> of line 264.
\<close>

fun scan_fingerprints :: "string \<Rightarrow> fingerprint list \<Rightarrow> panic + (bool \<times> bool)" where
  "scan_fingerprints cname [] = Inr (False, False)"
| "scan_fingerprints cname (fingerprint # rest) =
     (case fingerprint ''cname'' of
        Some (JArray cnameList) \<Rightarrow>
          (case match_cnameList cname cnameList of
             Inl p \<Rightarrow> Inl p
           | Inr True \<Rightarrow>
               (case fingerprint ''vulnerable'' of
                  Some (JBool v) \<Rightarrow> Inr (True, v)
                | _ \<Rightarrow> Inl TypeAssertion)
           | Inr False \<Rightarrow> scan_fingerprints cname rest)
      | _ \<Rightarrow> Inl TypeAssertion)"

definition isVulnerableCNAME :: "string \<Rightarrow> fingerprint list \<Rightarrow> panic + (bool \<times> bool)" where
  "isVulnerableCNAME cname visited = scan_fingerprints (TrimSuffix cname ''.'') visited"

text \<open>
  The shape the spec gives a fingerprint entry (section 6): \<open>cname\<close> an array of strings
  and \<open>vulnerable\<close> a boolean. \<open>patterns_of\<close> and \<open>verdict_of\<close> read the two fields of
  an entry of that shape.
\<close>

fun is_JString :: "json \<Rightarrow> bool" where
  "is_JString (JString s) = True"
| "is_JString _ = False"

fun string_of :: "json \<Rightarrow> string" where
  "string_of (JString s) = s"
| "string_of _ = []"

definition patterns_of :: "fingerprint \<Rightarrow> string list option" where
  "patterns_of f =
     (case f ''cname'' of
        Some (JArray xs) \<Rightarrow> if list_all is_JString xs then Some (map string_of xs) else None
      | _ \<Rightarrow> None)"

definition verdict_of :: "fingerprint \<Rightarrow> bool option" where
  "verdict_of f = (case f ''vulnerable'' of Some (JBool v) \<Rightarrow> Some v | _ \<Rightarrow> None)"

definition well_shaped :: "fingerprint \<Rightarrow> bool" where
  "well_shaped f = (patterns_of f \<noteq> None \<and> verdict_of f \<noteq> None)"

text \<open>
  An entry matches a (trimmed) name when one of its patterns is a suffix of the name.
\<close>

definition entry_matches :: "string \<Rightarrow> fingerprint \<Rightarrow> bool" where
  "entry_matches name f =
     (case patterns_of f of None \<Rightarrow> False | Some ps \<Rightarrow> list_ex (HasSuffix name) ps)"

text \<open>
  What the scan does with one entry, for a trimmed name \<open>t\<close>, said without the loops.
  It \<open>passes_over\<close> an entry whose \<open>cname\<close> is an array of strings none of which is
  a suffix of \<open>t\<close> (\<open>vulnerable\<close> is not read). It \<open>returns_at\<close> an entry whose
  \<open>cname\<close> array starts with strings that do not match, followed by a string that
  does (what follows it is not read), and whose \<open>vulnerable\<close> is a boolean. It
  \<open>panics_at\<close> an entry whose \<open>cname\<close> is missing or no array, or whose array holds
  an element that is no string after strings that do not match, or whose first matching
  pattern is reached while \<open>vulnerable\<close> is missing or no boolean.
\<close>

definition passes_over :: "string \<Rightarrow> fingerprint \<Rightarrow> bool" where
  "passes_over t f =
     (\<exists>ps. f ''cname'' = Some (JArray (map JString ps)) \<and> \<not> list_ex (HasSuffix t) ps)"

definition returns_at :: "string \<Rightarrow> fingerprint \<Rightarrow> bool \<Rightarrow> bool" where
  "returns_at t f v =
     (\<exists>ps p rest. f ''cname'' = Some (JArray (map JString ps @ JString p # rest))
        \<and> \<not> list_ex (HasSuffix t) ps \<and> HasSuffix t p
        \<and> f ''vulnerable'' = Some (JBool v))"

definition panics_at :: "string \<Rightarrow> fingerprint \<Rightarrow> bool" where
  "panics_at t f =
     ((\<forall>xs. f ''cname'' \<noteq> Some (JArray xs))
      \<or> (\<exists>ps x rest. f ''cname'' = Some (JArray (map JString ps @ x # rest))
            \<and> \<not> list_ex (HasSuffix t) ps \<and> \<not> is_JString x)
      \<or> (\<exists>ps p rest. f ''cname'' = Some (JArray (map JString ps @ JString p # rest))
            \<and> \<not> list_ex (HasSuffix t) ps \<and> HasSuffix t p
            \<and> (\<forall>v. f ''vulnerable'' \<noteq> Some (JBool v))))"

section \<open>Resolution results and the report buckets\<close>

text \<open>
  \<open>cnameResult\<close> (lines 22-26); \<open>err\<close> is nil (\<open>None\<close>) or an error with its message.
  The package-level slices of lines 29-35 are the buckets; Go starts each of them nil.
  \<open>found\<close> is written only by \<open>processResults\<close> (lines 197-211), which nothing in
  main.go calls; \<open>bucket_entries\<close> counts the four buckets of the spec.
\<close>

record cnameResult =
  domain :: string
  cname :: string
  err :: "string option"

record buckets =
  found :: "string list"
  notFound :: "string list"
  isExploitable :: "string list"
  notExploitable :: "string list"
  unknownExploitability :: "string list"

definition no_buckets :: buckets where
  "no_buckets = \<lparr>found = [], notFound = [], isExploitable = [], notExploitable = [],
     unknownExploitability = []\<rparr>"

definition bucket_entries :: "buckets \<Rightarrow> nat" where
  "bucket_entries b = length (isExploitable b) + length (notExploitable b)
     + length (unknownExploitability b) + length (notFound b)"

section \<open>queryAndSendCNAME (lines 185-194)\<close>

text \<open>
  \<open>exec.Command("dig", "+short", "CNAME", domain).Output()\<close> is the resolution
  capability: for a domain it gives the bytes of standard output and whether the error
  is non-nil. \<open>queryAndSendCNAME dig d\<close> is the one value the function sends on the
  results channel; the send itself is a step of the pipeline below.
\<close>

type_synonym resolver = "string \<Rightarrow> string \<times> bool"

definition queryAndSendCNAME :: "resolver \<Rightarrow> string \<Rightarrow> cnameResult" where
  "queryAndSendCNAME dig d =
     (case dig d of (out, failed) \<Rightarrow>
        if failed \<or> length out = 0
        then \<lparr>domain = d, cname = [], err = Some ''no CNAME record found or dig command failed''\<rparr>
        else \<lparr>domain = d, cname = TrimSpace out, err = None\<rparr>)"

section \<open>processCNAMEResult (lines 268-291)\<close>

text \<open>
  Modelled from the spec: \<open>ifThenElse\<close> is called at lines 278 and 284 and is not in
  main.go. The spec's end-to-end example prints \<open>vulnerable\<close> for an entry with
  \<open>vulnerable = true\<close>: the second argument is the result when the condition holds, the
  third otherwise.
\<close>

definition ifThenElse :: "bool \<Rightarrow> 'a \<Rightarrow> 'a \<Rightarrow> 'a" where
  "ifThenElse c a b = (if c then a else b)"

text \<open>
  Modelled from the spec: \<open>appendResultBasedOnVulnerability\<close> is called at lines 279
  and 285 and is not in main.go. Spec, section 4.3: a match with \<open>vulnerable = true\<close>
  goes to Exploitable, one with \<open>vulnerable = false\<close> to NotExploitable.
\<close>

definition appendResultBasedOnVulnerability :: "bool \<Rightarrow> string \<Rightarrow> buckets \<Rightarrow> buckets" where
  "appendResultBasedOnVulnerability vulnerable msg b =
     (if vulnerable then b\<lparr>isExploitable := isExploitable b @ [msg]\<rparr>
      else b\<lparr>notExploitable := notExploitable b @ [msg]\<rparr>)"

text \<open>
  \<open>extractServiceName\<close> and \<open>isServiceVulnerable\<close> (lines 282-283) are not in main.go
  either, and the spec does not fix what they compute: they are parameters. The second
  returns \<open>(serviceMatch, vulnerable, service, fingerprintText, hasNXDOMAINFlag)\<close>.
\<close>

record helpers =
  extractServiceName :: "string \<Rightarrow> string"
  isServiceVulnerable :: "string \<Rightarrow> fingerprints \<Rightarrow> bool \<times> bool \<times> string \<times> string \<times> bool"

text \<open>
  \<open>processCNAMEResult h result fps ks b\<close>: the buckets after the call, from the buckets
  \<open>b\<close> before it, where \<open>ks\<close> is the order in which the \<open>range\<close> statement of
  \<open>isVulnerableCNAME\<close> visits the store in this call. \<open>fmt.Sprintf\<close> with \<open>%s\<close>
  verbs on strings is concatenation. The log calls do not touch the buckets.
\<close>

definition processCNAMEResult ::
  "helpers \<Rightarrow> cnameResult \<Rightarrow> fingerprints \<Rightarrow> string list \<Rightarrow> buckets \<Rightarrow> panic + buckets" where
  "processCNAMEResult h result fps ks b =
     (if err result \<noteq> None \<or> cname result = []
      then Inr (b\<lparr>notFound := notFound b @ [''No CNAME record found for: '' @ domain result]\<rparr>)
      else
        case isVulnerableCNAME (cname result) (range_values fps ks) of
          Inl p \<Rightarrow> Inl p
        | Inr (directMatch, vulnerable) \<Rightarrow>
            if directMatch
            then Inr (appendResultBasedOnVulnerability vulnerable
                   (''CNAME for '' @ domain result @ '' is: '' @ cname result
                      @ '' (found matching fingerprint - ''
                      @ ifThenElse vulnerable ''vulnerable'' ''safe'' @ '')'') b)
            else
              (case isServiceVulnerable h (extractServiceName h (cname result)) fps of
                 (serviceMatch, vulnerable, service, fingerprintText, hasNXDOMAINFlag) \<Rightarrow>
                   if serviceMatch
                   then Inr (appendResultBasedOnVulnerability vulnerable
                          (''CNAME for '' @ domain result @ '' is: '' @ cname result
                             @ '' (found potentially matching service '' @ [CHR 0x27] @ service
                             @ [CHR 0x27] @ '' - ''
                             @ ifThenElse vulnerable ''vulnerable'' ''safe'' @ '')'') b)
                   else Inr (b\<lparr>unknownExploitability := unknownExploitability b
                          @ [''CNAME for '' @ domain result @ '' is: '' @ cname result]\<rparr>)))"

text \<open>
  The consumer's loop (lines 151-153) over the results it receives, each paired with the
  visiting order of the \<open>range\<close> statement in its call; a panic ends the loop.
\<close>

fun consumer_loop ::
  "helpers \<Rightarrow> fingerprints \<Rightarrow> (cnameResult \<times> string list) list \<Rightarrow> buckets \<Rightarrow> panic + buckets" where
  "consumer_loop h fps [] b = Inr b"
| "consumer_loop h fps ((result, ks) # rest) b =
     (case processCNAMEResult h result fps ks b of
        Inl p \<Rightarrow> Inl p
      | Inr b' \<Rightarrow> consumer_loop h fps rest b')"

section \<open>writeResults (lines 214-248)\<close>

text \<open>
  The file is modelled by the sequence of strings handed to \<open>WriteString\<close>, in order;
  its content is their concatenation. \<open>os.Create\<close> failing ends the process
  (\<open>log.Fatalf\<close>): the result is \<open>None\<close>.
\<close>

definition nl :: string where
  "nl = [CHR 0x0A]"

definition write_items :: "string list \<Rightarrow> string list" where
  "write_items items = map (\<lambda>item. ''- '' @ item @ nl) items"

definition writeResults :: "bool \<Rightarrow> buckets \<Rightarrow> string list option" where
  "writeResults create_ok b =
     (if \<not> create_ok then None
      else Some (
        (if length (isExploitable b) > 0
         then [''### Is Exploitable'' @ nl @ nl] @ write_items (isExploitable b) @ [nl]
         else [])
        @ (if length (notExploitable b) > 0
           then [''### Not Exploitable'' @ nl @ nl] @ write_items (notExploitable b) @ [nl]
           else [])
        @ (if length (unknownExploitability b) > 0
           then [''### Exploitability Unknown'' @ nl @ nl]
                  @ write_items (unknownExploitability b)
           else [])))"

text \<open>
  What one bucket contributes to the file: nothing when it is empty, else the title, one
  string per item and the trailer (a blank line after the first two sections, nothing
  after the third). \<open>writeResults_sections\<close> below shows \<open>writeResults\<close> is three of
  these.
\<close>

definition section_chunks :: "string \<Rightarrow> string list \<Rightarrow> string list \<Rightarrow> string list" where
  "section_chunks title items trailer =
     (if items = [] then [] else [''### '' @ title @ nl @ nl] @ write_items items @ trailer)"

text \<open>
  The report as the spec words it (section 4.4): one titled section per non-empty bucket,
  in the order Exploitable, NotExploitable, Unknown, each item one bulleted line. This
  definition follows the spec; \<open>writeResults\<close> above follows the code.
\<close>

definition spec_sections :: "buckets \<Rightarrow> (string \<times> string list) list" where
  "spec_sections b =
     filter (\<lambda>(title, items). items \<noteq> [])
       [(''Is Exploitable'', isExploitable b),
        (''Not Exploitable'', notExploitable b),
        (''Exploitability Unknown'', unknownExploitability b)]"

definition spec_lines :: "buckets \<Rightarrow> string list" where
  "spec_lines b =
     concat (map (\<lambda>(title, items). (''### '' @ title) # map (\<lambda>item. ''- '' @ item) items)
               (spec_sections b))"

text \<open>The non-empty lines of a file: its content cut at every line feed.\<close>

fun lines_from :: "string \<Rightarrow> string \<Rightarrow> string list" where
  "lines_from cur [] = (if cur = [] then [] else [rev cur])"
| "lines_from cur (c # cs) =
     (if c = CHR 0x0A then (if cur = [] then [] else [rev cur]) @ lines_from [] cs
      else lines_from (c # cur) cs)"

definition nonempty_lines :: "string \<Rightarrow> string list" where
  "nonempty_lines s = lines_from [] s"

section \<open>checkCNAMEs (lines 127-182): the pipeline as a transition system\<close>

text \<open>
  The supervisor (the goroutine running \<open>checkCNAMEs\<close>), one worker goroutine per scanned
  line and the consumer goroutine of lines 150-154 run interleaved; every channel
  operation, WaitGroup operation and call is one atomic step. The system starts at line
  149, with the file opened and the store loaded.

  \<open>main_pc\<close> is where the supervisor stands: in the scan loop (156-167), at
  \<open>wg.Wait()\<close> (175), at \<open>close(results)\<close> (178), at \<open>writeResults()\<close> (181), or
  returned from \<open>checkCNAMEs\<close> (lines 171 and 182), after which \<open>queryCRTSH\<close>, \<open>run\<close>
  and \<open>main\<close> return and the process ends, whatever the other goroutines are doing.
\<close>

datatype main_pc = Scanning | Waiting | Closing | Writing | Returned

text \<open>
  A worker (lines 162-166) is about to run \<open>dig\<close>, holds the result it is about to send,
  has sent and is about to run the deferred \<open><-sem\<close>, or is about to run the deferred
  \<open>wg.Done()\<close> (deferred calls run last-in first-out).
\<close>

datatype wphase = Querying | Sending cnameResult | Releasing | Finishing

type_synonym worker = "string \<times> wphase"

text \<open>
  How the process has ended, if it has: \<open>main\<close> returned, a goroutine panicked, or
  \<open>log.Fatalf\<close> was called. No goroutine moves after that.
\<close>

datatype halt = ExitNormally | Panicked | Fatal

text \<open>
  The state: \<open>todo\<close> the lines the scanner has not returned yet, \<open>pc\<close> the
  supervisor's position, \<open>sem\<close> the number of tokens in the channel \<open>sem\<close>, \<open>wg\<close>
  the WaitGroup's counter, \<open>workers\<close> the live worker goroutines, \<open>results\<close> the
  buffer of the channel \<open>results\<close> (oldest first) and \<open>closed\<close> whether it is closed,
  \<open>consuming\<close> whether the consumer is still in its \<open>range\<close> loop, \<open>bkts\<close> the
  package-level bucket slices, \<open>report\<close> what has been written to the output file.
\<close>

record pipeline =
  todo :: "string list"
  pc :: main_pc
  sem :: nat
  wg :: nat
  workers :: "worker multiset"
  results :: "cnameResult list"
  closed :: bool
  consuming :: bool
  bkts :: buckets
  report :: "string list option"
  halted :: "halt option"

text \<open>
  What a run does not decide: the resolver, the two functions missing from main.go, the
  loaded store, whether \<open>scanner.Err()\<close> is non-nil once \<open>Scan\<close> has returned false
  (the candidates are then the lines scanned before the error), and whether
  \<open>os.Create\<close> succeeds.
\<close>

record environment =
  dig :: resolver
  helper_fns :: helpers
  store :: fingerprints
  scan_err :: bool
  create_ok :: bool

text \<open>
  Line 141 and the buffer size of line 139. At the start (line 149) the consumer has
  been started, no worker has, and the buckets are nil.
\<close>

definition maxConcurrency :: nat where
  "maxConcurrency = 20"

definition results_capacity :: nat where
  "results_capacity = 100"

definition init :: "string list \<Rightarrow> pipeline" where
  "init cs = \<lparr>todo = cs, pc = Scanning, sem = 0, wg = 0, workers = {#}, results = [],
     closed = False, consuming = True, bkts = no_buckets, report = None, halted = None\<rparr>"

text \<open>
  A worker holds its slot of the semaphore until its deferred \<open><-sem\<close> has run; it is
  \<open>resolving\<close> while its \<open>dig\<close> call is in flight, and \<open>unsent\<close> until it has sent its
  result.
\<close>

definition holds_slot :: "worker \<Rightarrow> bool" where
  "holds_slot w = (snd w \<noteq> Finishing)"

definition resolving :: "worker \<Rightarrow> bool" where
  "resolving w = (snd w = Querying)"

fun before_send :: "wphase \<Rightarrow> bool" where
  "before_send Querying = True"
| "before_send (Sending r) = True"
| "before_send Releasing = False"
| "before_send Finishing = False"

definition unsent :: "worker \<Rightarrow> bool" where
  "unsent w = before_send (snd w)"

inductive step :: "environment \<Rightarrow> pipeline \<Rightarrow> pipeline \<Rightarrow> bool" for e :: environment where
  launch: \<comment> \<open>lines 156-166: Scan, wg.Add(1), sem <- struct{}{}, go func\<close>
    "halted s = None \<Longrightarrow> pc s = Scanning \<Longrightarrow> todo s = d # ds \<Longrightarrow> sem s < maxConcurrency \<Longrightarrow>
     step e s (s\<lparr>todo := ds, wg := wg s + 1, sem := sem s + 1,
                 workers := workers s + {#(d, Querying)#}\<rparr>)"
| scan_end: \<comment> \<open>lines 156 and 169: Scan returns false, scanner.Err() is nil\<close>
    "halted s = None \<Longrightarrow> pc s = Scanning \<Longrightarrow> todo s = [] \<Longrightarrow> \<not> scan_err e \<Longrightarrow>
     step e s (s\<lparr>pc := Waiting\<rparr>)"
| scan_fail: \<comment> \<open>lines 169-172: scanner.Err() is not nil, early return\<close>
    "halted s = None \<Longrightarrow> pc s = Scanning \<Longrightarrow> todo s = [] \<Longrightarrow> scan_err e \<Longrightarrow>
     step e s (s\<lparr>pc := Returned\<rparr>)"
| query: \<comment> \<open>line 186: the dig call returns\<close>
    "halted s = None \<Longrightarrow> (d, Querying) \<in># workers s \<Longrightarrow>
     step e s (s\<lparr>workers := workers s - {#(d, Querying)#}
                              + {#(d, Sending (queryAndSendCNAME (dig e) d))#}\<rparr>)"
| send: \<comment> \<open>lines 188 and 192: results <- cnameResult{...}, blocked while the buffer is full\<close>
    "halted s = None \<Longrightarrow> (d, Sending r) \<in># workers s \<Longrightarrow> \<not> closed s \<Longrightarrow>
     length (results s) < results_capacity \<Longrightarrow>
     step e s (s\<lparr>results := results s @ [r],
                 workers := workers s - {#(d, Sending r)#} + {#(d, Releasing)#}\<rparr>)"
| send_closed: \<comment> \<open>a send on a closed channel panics\<close>
    "halted s = None \<Longrightarrow> (d, Sending r) \<in># workers s \<Longrightarrow> closed s \<Longrightarrow>
     step e s (s\<lparr>halted := Some Panicked\<rparr>)"
| release: \<comment> \<open>line 164: the deferred <-sem\<close>
    "halted s = None \<Longrightarrow> (d, Releasing) \<in># workers s \<Longrightarrow> 0 < sem s \<Longrightarrow>
     step e s (s\<lparr>sem := sem s - 1,
                 workers := workers s - {#(d, Releasing)#} + {#(d, Finishing)#}\<rparr>)"
| finish: \<comment> \<open>line 163: the deferred wg.Done(); the goroutine ends\<close>
    "halted s = None \<Longrightarrow> (d, Finishing) \<in># workers s \<Longrightarrow> 0 < wg s \<Longrightarrow>
     step e s (s\<lparr>wg := wg s - 1, workers := workers s - {#(d, Finishing)#}\<rparr>)"
| wait_done: \<comment> \<open>line 175: wg.Wait() returns when the counter is zero\<close>
    "halted s = None \<Longrightarrow> pc s = Waiting \<Longrightarrow> wg s = 0 \<Longrightarrow>
     step e s (s\<lparr>pc := Closing\<rparr>)"
| close_results: \<comment> \<open>line 178: close(results)\<close>
    "halted s = None \<Longrightarrow> pc s = Closing \<Longrightarrow>
     step e s (s\<lparr>closed := True, pc := Writing\<rparr>)"
| write_report: \<comment> \<open>line 181: writeResults(), which reads the buckets as they are now\<close>
    "halted s = None \<Longrightarrow> pc s = Writing \<Longrightarrow> writeResults (create_ok e) (bkts s) = Some chunks \<Longrightarrow>
     step e s (s\<lparr>report := Some chunks, pc := Returned\<rparr>)"
| write_fatal: \<comment> \<open>lines 215-218: os.Create fails, log.Fatalf\<close>
    "halted s = None \<Longrightarrow> pc s = Writing \<Longrightarrow> writeResults (create_ok e) (bkts s) = None \<Longrightarrow>
     step e s (s\<lparr>halted := Some Fatal\<rparr>)"
| exit_process: \<comment> \<open>lines 182, 124, 88, 53: checkCNAMEs, queryCRTSH, run and main return\<close>
    "halted s = None \<Longrightarrow> pc s = Returned \<Longrightarrow>
     step e s (s\<lparr>halted := Some ExitNormally\<rparr>)"
| consume: \<comment> \<open>lines 151-152: the consumer receives one result and classifies it\<close>
    "halted s = None \<Longrightarrow> consuming s \<Longrightarrow> results s = r # rs \<Longrightarrow> range_order (store e) ks \<Longrightarrow>
     processCNAMEResult (helper_fns e) r (store e) ks (bkts s) = Inr b' \<Longrightarrow>
     step e s (s\<lparr>results := rs, bkts := b'\<rparr>)"
| consume_panic: \<comment> \<open>a type assertion of isVulnerableCNAME fails in the consumer\<close>
    "halted s = None \<Longrightarrow> consuming s \<Longrightarrow> results s = r # rs \<Longrightarrow> range_order (store e) ks \<Longrightarrow>
     processCNAMEResult (helper_fns e) r (store e) ks (bkts s) = Inl p \<Longrightarrow>
     step e s (s\<lparr>results := rs, halted := Some Panicked\<rparr>)"
| consumer_end: \<comment> \<open>line 151: the range loop ends when the channel is closed and empty\<close>
    "halted s = None \<Longrightarrow> consuming s \<Longrightarrow> results s = [] \<Longrightarrow> closed s \<Longrightarrow>
     step e s (s\<lparr>consuming := False\<rparr>)"

text \<open>The states a run of the pipeline on the candidate lines \<open>cs\<close> passes through.\<close>

inductive reachable :: "environment \<Rightarrow> string list \<Rightarrow> pipeline \<Rightarrow> bool"
  for e :: environment and cs :: "string list" where
  start: "reachable e cs (init cs)"
| after: "reachable e cs s \<Longrightarrow> step e s s' \<Longrightarrow> reachable e cs s'"

subsection \<open>Invariants\<close>

text \<open>
  The semaphore and the WaitGroup count the workers: a worker holds a slot from its
  launch until its deferred \<open><-sem\<close>, and is counted by \<open>wg\<close> until its deferred
  \<open>wg.Done()\<close>.
\<close>

definition slots_inv :: "pipeline \<Rightarrow> bool" where
  "slots_inv s = (sem s = size (filter_mset holds_slot (workers s))
     \<and> sem s \<le> maxConcurrency \<and> wg s = size (workers s))"

text \<open>
  The supervisor gets past \<open>wg.Wait()\<close> only when every line has been scanned and every
  worker has ended, and the channel is closed only from there.
\<close>

definition barrier_inv :: "pipeline \<Rightarrow> bool" where
  "barrier_inv s = ((pc s = Scanning \<or> todo s = [])
     \<and> (pc s = Closing \<or> pc s = Writing \<or> closed s \<longrightarrow> workers s = {#} \<and> todo s = [])
     \<and> (closed s \<longrightarrow> pc s = Writing \<or> pc s = Returned))"

text \<open>
  Where every candidate is: a worker about to send holds the result of its own query, and
  (unless a type assertion has failed) the results of the candidate lines are, as a
  multiset, those of the lines not yet scanned, of the workers that have not sent, of the
  queue, and of the results \<open>done\<close> the consumer has classified, from which the buckets
  were built by the consumer's loop.
\<close>

definition sends_own :: "environment \<Rightarrow> worker \<Rightarrow> bool" where
  "sends_own e w =
     (case snd w of Sending r \<Rightarrow> r = queryAndSendCNAME (dig e) (fst w) | _ \<Rightarrow> True)"

definition accounted_for ::
  "environment \<Rightarrow> string list \<Rightarrow> pipeline \<Rightarrow> (cnameResult \<times> string list) list \<Rightarrow> bool" where
  "accounted_for e cs s done =
     (list_all (\<lambda>(r, ks). range_order (store e) ks) done
      \<and> consumer_loop (helper_fns e) (store e) done no_buckets = Inr (bkts s)
      \<and> image_mset (queryAndSendCNAME (dig e)) (mset (todo s))
          + image_mset (\<lambda>w. queryAndSendCNAME (dig e) (fst w)) (filter_mset unsent (workers s))
          + mset (results s) + mset (map fst done)
        = image_mset (queryAndSendCNAME (dig e)) (mset cs))"

definition accounting_inv :: "environment \<Rightarrow> string list \<Rightarrow> pipeline \<Rightarrow> bool" where
  "accounting_inv e cs s = ((\<forall>w\<in>#workers s. sends_own e w)
     \<and> (halted s = Some Panicked \<or> (\<exists>done. accounted_for e cs s done)))"

subsection \<open>Schedules\<close>

text \<open>
  A schedule names, step by step, which goroutine moves; \<open>perform\<close> is the step
  relation made a function of that choice (\<open>None\<close> when the move is not enabled), so
  that a run can be computed. \<open>perform_step\<close> below shows it takes steps of \<open>step\<close>
  only.
\<close>

datatype action =
    Launch | ScanEnd | Query string | Send string | Release string | Finish string
  | WaitDone | CloseResults | WriteReport | ExitProcess | Consume "string list" | ConsumerEnd

fun perform :: "environment \<Rightarrow> action \<Rightarrow> pipeline \<Rightarrow> pipeline option" where
  "perform e Launch s =
     (case todo s of
        [] \<Rightarrow> None
      | d # ds \<Rightarrow>
          if halted s = None \<and> pc s = Scanning \<and> sem s < maxConcurrency
          then Some (s\<lparr>todo := ds, wg := wg s + 1, sem := sem s + 1,
                       workers := workers s + {#(d, Querying)#}\<rparr>)
          else None)"
| "perform e ScanEnd s =
     (if halted s = None \<and> pc s = Scanning \<and> todo s = []
      then Some (s\<lparr>pc := (if scan_err e then Returned else Waiting)\<rparr>) else None)"
| "perform e (Query d) s =
     (if halted s = None \<and> (d, Querying) \<in># workers s
      then Some (s\<lparr>workers := workers s - {#(d, Querying)#}
                              + {#(d, Sending (queryAndSendCNAME (dig e) d))#}\<rparr>)
      else None)"
| "perform e (Send d) s =
     (if halted s = None \<and> (d, Sending (queryAndSendCNAME (dig e) d)) \<in># workers s
         \<and> \<not> closed s \<and> length (results s) < results_capacity
      then Some (s\<lparr>results := results s @ [queryAndSendCNAME (dig e) d],
                   workers := workers s - {#(d, Sending (queryAndSendCNAME (dig e) d))#}
                              + {#(d, Releasing)#}\<rparr>)
      else None)"
| "perform e (Release d) s =
     (if halted s = None \<and> (d, Releasing) \<in># workers s \<and> 0 < sem s
      then Some (s\<lparr>sem := sem s - 1,
                   workers := workers s - {#(d, Releasing)#} + {#(d, Finishing)#}\<rparr>)
      else None)"
| "perform e (Finish d) s =
     (if halted s = None \<and> (d, Finishing) \<in># workers s \<and> 0 < wg s
      then Some (s\<lparr>wg := wg s - 1, workers := workers s - {#(d, Finishing)#}\<rparr>)
      else None)"
| "perform e WaitDone s =
     (if halted s = None \<and> pc s = Waiting \<and> wg s = 0 then Some (s\<lparr>pc := Closing\<rparr>) else None)"
| "perform e CloseResults s =
     (if halted s = None \<and> pc s = Closing then Some (s\<lparr>closed := True, pc := Writing\<rparr>)
      else None)"
| "perform e WriteReport s =
     (if halted s = None \<and> pc s = Writing
      then (case writeResults (create_ok e) (bkts s) of
              Some chunks \<Rightarrow> Some (s\<lparr>report := Some chunks, pc := Returned\<rparr>)
            | None \<Rightarrow> Some (s\<lparr>halted := Some Fatal\<rparr>))
      else None)"
| "perform e ExitProcess s =
     (if halted s = None \<and> pc s = Returned then Some (s\<lparr>halted := Some ExitNormally\<rparr>)
      else None)"
| "perform e (Consume ks) s =
     (case results s of
        [] \<Rightarrow> None
      | r # rs \<Rightarrow>
          if halted s = None \<and> consuming s \<and> range_order (store e) ks
          then (case processCNAMEResult (helper_fns e) r (store e) ks (bkts s) of
                  Inr b' \<Rightarrow> Some (s\<lparr>results := rs, bkts := b'\<rparr>)
                | Inl p \<Rightarrow> Some (s\<lparr>results := rs, halted := Some Panicked\<rparr>))
          else None)"
| "perform e ConsumerEnd s =
     (if halted s = None \<and> consuming s \<and> results s = [] \<and> closed s
      then Some (s\<lparr>consuming := False\<rparr>) else None)"

fun run_schedule :: "environment \<Rightarrow> action list \<Rightarrow> pipeline \<Rightarrow> pipeline option" where
  "run_schedule e [] s = Some s"
| "run_schedule e (a # as) s =
     (case perform e a s of None \<Rightarrow> None | Some s' \<Rightarrow> run_schedule e as s')"

section \<open>The stores and results of the spec's examples (section 8)\<close>

text \<open>
  The store of the end-to-end example; the two-entry store of the first-match example
  under the service ids \<open>first\<close> and \<open>second\<close>; a store in which two entries match
  the names under \<open>myshopify.com\<close> and agree on the verdict; and an entry whose
  \<open>vulnerable\<close> field is a string.
\<close>

definition shopify :: fingerprint where
  "shopify = [''cname'' \<mapsto> JArray [JString ''myshopify.com''], ''vulnerable'' \<mapsto> JBool True]"

definition shopify_store :: fingerprints where
  "shopify_store = [''shopify'' \<mapsto> shopify]"

definition first_entry :: fingerprint where
  "first_entry = [''cname'' \<mapsto> JArray [JString ''a.example''], ''vulnerable'' \<mapsto> JBool False]"

definition second_entry :: fingerprint where
  "second_entry = [''cname'' \<mapsto> JArray [JString ''a.example''], ''vulnerable'' \<mapsto> JBool True]"

definition two_entry_store :: fingerprints where
  "two_entry_store = [''first'' \<mapsto> first_entry, ''second'' \<mapsto> second_entry]"

definition shopify_alias :: fingerprint where
  "shopify_alias = [''cname'' \<mapsto> JArray [JString ''shopify.example'', JString ''.myshopify.com''],
     ''vulnerable'' \<mapsto> JBool True]"

definition agreeing_store :: fingerprints where
  "agreeing_store = [''shopify'' \<mapsto> shopify, ''alias'' \<mapsto> shopify_alias]"

definition unchecked_entry :: fingerprint where
  "unchecked_entry = [''cname'' \<mapsto> JArray [JString ''a.example''], ''vulnerable'' \<mapsto> JString ''yes'']"

text \<open>
  A resolver for the end-to-end example: \<open>a.test\<close> resolves to \<open>shop.myshopify.com.\<close>,
  every other name fails. Helpers that never report a service match stand in for the
  two functions that are not in main.go where a concrete value is needed.
\<close>

definition example_dig :: resolver where
  "example_dig d = (if d = ''a.test'' then (''shop.myshopify.com.'', False) else ([], True))"

definition no_helpers :: helpers where
  "no_helpers = \<lparr>extractServiceName = (\<lambda>c. []),
     isServiceVulnerable = (\<lambda>sld fps. (False, False, [], [], False))\<rparr>"

definition example_env :: "fingerprints \<Rightarrow> environment" where
  "example_env fps = \<lparr>dig = example_dig, helper_fns = no_helpers, store = fps,
     scan_err = False, create_ok = True\<rparr>"

text \<open>
  Results and buckets: what \<open>queryAndSendCNAME\<close> sends for \<open>a.test\<close> and for
  \<open>b.test\<close> under that resolver, a result under the two-entry store, the buckets of
  the end-to-end example once both results are classified, and buckets with entries in
  all four lists.
\<close>

definition shop_result :: cnameResult where
  "shop_result = \<lparr>domain = ''a.test'', cname = ''shop.myshopify.com.'', err = None\<rparr>"

definition no_record_result :: cnameResult where
  "no_record_result = \<lparr>domain = ''b.test'', cname = [],
     err = Some ''no CNAME record found or dig command failed''\<rparr>"

definition a_example_result :: cnameResult where
  "a_example_result = \<lparr>domain = ''d.test'', cname = ''x.a.example'', err = None\<rparr>"

definition example_buckets :: buckets where
  "example_buckets = \<lparr>found = [], notFound = [''No CNAME record found for: b.test''],
     isExploitable =
       [''CNAME for a.test is: shop.myshopify.com. (found matching fingerprint - vulnerable)''],
     notExploitable = [], unknownExploitability = []\<rparr>"

definition three_buckets :: buckets where
  "three_buckets = \<lparr>found = [], notFound = [''No CNAME record found for: b.test''],
     isExploitable = [''CNAME for a.test is: x.one.example (found matching fingerprint - vulnerable)''],
     notExploitable = [''CNAME for c.test is: y.two.example (found matching fingerprint - safe)'',
                       ''CNAME for d.test is: z.two.example (found matching fingerprint - safe)''],
     unknownExploitability = [''CNAME for e.test is: x.randomhost.net'']\<rparr>"

text \<open>
  Runs of the pipeline. \<open>resolving_state\<close>: one worker launched on the two
  candidates. \<open>early_report_schedule\<close>, on the one candidate \<open>a.test\<close>: the worker
  runs to its end and the supervisor closes the channel and writes the report, while the
  consumer has not moved; it ends in \<open>undrained_state\<close>, and \<open>lost_state\<close> is that
  state after the process has ended. \<open>drained_schedule\<close>, on the two candidates: the
  consumer classifies both results before the report is written, ending in
  \<open>drained_state\<close>. \<open>empty_report_state\<close>: the end of a run on no candidate.
\<close>

definition resolving_state :: pipeline where
  "resolving_state = \<lparr>todo = [''b.test''], pc = Scanning, sem = 1, wg = 1,
     workers = {#(''a.test'', Querying)#}, results = [], closed = False, consuming = True,
     bkts = no_buckets, report = None, halted = None\<rparr>"

definition early_report_schedule :: "action list" where
  "early_report_schedule = [Launch, Query ''a.test'', Send ''a.test'', Release ''a.test'',
     Finish ''a.test'', ScanEnd, WaitDone, CloseResults, WriteReport]"

definition undrained_state :: pipeline where
  "undrained_state = \<lparr>todo = [], pc = Returned, sem = 0, wg = 0, workers = {#},
     results = [shop_result], closed = True, consuming = True, bkts = no_buckets,
     report = Some [], halted = None\<rparr>"

definition lost_state :: pipeline where
  "lost_state = undrained_state\<lparr>halted := Some ExitNormally\<rparr>"

definition drained_schedule :: "action list" where
  "drained_schedule = [Launch, Launch, ScanEnd, Query ''b.test'', Query ''a.test'',
     Send ''b.test'', Consume [''shopify''], Send ''a.test'', Release ''a.test'', Release ''b.test'',
     Finish ''b.test'', Finish ''a.test'', WaitDone, CloseResults, Consume [''shopify''],
     ConsumerEnd, WriteReport]"

definition drained_state :: pipeline where
  "drained_state = \<lparr>todo = [], pc = Returned, sem = 0, wg = 0, workers = {#},
     results = [], closed = True, consuming = False, bkts = example_buckets,
     report = Some [''### Is Exploitable'' @ nl @ nl,
       ''- CNAME for a.test is: shop.myshopify.com. (found matching fingerprint - vulnerable)'' @ nl,
       nl],
     halted = None\<rparr>"

definition empty_report_state :: pipeline where
  "empty_report_state = \<lparr>todo = [], pc = Returned, sem = 0, wg = 0, workers = {#},
     results = [], closed = True, consuming = False, bkts = no_buckets,
     report = Some [], halted = None\<rparr>"

text \<open>
  A resolver whose \<open>dig\<close> prints two lines for \<open>m.test\<close>, the result
  \<open>queryAndSendCNAME\<close> sends for it (\<open>TrimSpace\<close> removes the last line feed only),
  the bucket item it is classified into under the store of the end-to-end example, and a
  run on that one candidate in which the consumer classifies the result before the report
  is written.
\<close>

definition two_line_dig :: resolver where
  "two_line_dig d =
     (if d = ''m.test'' then (''x.other.net.'' @ nl @ ''shop.myshopify.com.'' @ nl, False)
      else ([], True))"

definition two_line_env :: environment where
  "two_line_env = \<lparr>dig = two_line_dig, helper_fns = no_helpers, store = shopify_store,
     scan_err = False, create_ok = True\<rparr>"

definition two_line_result :: cnameResult where
  "two_line_result = \<lparr>domain = ''m.test'',
     cname = ''x.other.net.'' @ nl @ ''shop.myshopify.com.'', err = None\<rparr>"

definition two_line_item :: string where
  "two_line_item = ''CNAME for m.test is: x.other.net.'' @ nl
     @ ''shop.myshopify.com. (found matching fingerprint - vulnerable)''"

definition two_line_schedule :: "action list" where
  "two_line_schedule = [Launch, ScanEnd, Query ''m.test'', Send ''m.test'', Release ''m.test'',
     Finish ''m.test'', Consume [''shopify''], WaitDone, CloseResults, ConsumerEnd, WriteReport]"

definition two_line_state :: pipeline where
  "two_line_state = \<lparr>todo = [], pc = Returned, sem = 0, wg = 0, workers = {#},
     results = [], closed = True, consuming = False,
     bkts = no_buckets\<lparr>isExploitable := [two_line_item]\<rparr>,
     report = Some [''### Is Exploitable'' @ nl @ nl, ''- '' @ two_line_item @ nl, nl],
     halted = None\<rparr>"

text \<open>
  Twenty-one candidates whose resolution fails: \<open>full_state\<close> is the run after twenty
  launches, with the semaphore full and one line left to scan, and
  \<open>one_released_state\<close> is that state after one of the workers has queried, sent its
  failure result and released its slot.
\<close>

definition full_state :: pipeline where
  "full_state = \<lparr>todo = [''b.test''], pc = Scanning, sem = 20, wg = 20,
     workers = replicate_mset 20 (''b.test'', Querying), results = [], closed = False,
     consuming = True, bkts = no_buckets, report = None, halted = None\<rparr>"

definition one_released_state :: pipeline where
  "one_released_state = \<lparr>todo = [''b.test''], pc = Scanning, sem = 19, wg = 20,
     workers = add_mset (''b.test'', Finishing) (replicate_mset 19 (''b.test'', Querying)),
     results = [no_record_result], closed = False,
     consuming = True, bkts = no_buckets, report = None, halted = None\<rparr>"

section \<open>Facts about the string functions\<close>

lemma HasSuffix_iff_suffix: "HasSuffix s suf \<longleftrightarrow> suffix suf s"
proof
  assume "HasSuffix s suf"
  then have "drop (length s - length suf) s = suf"
    by (simp add: HasSuffix_def)
  then have "s = take (length s - length suf) s @ suf"
    by (metis append_take_drop_id)
  then show "suffix suf s"
    by (metis suffixI)
next
  assume "suffix suf s"
  then obtain pre where "s = pre @ suf"
    by (auto simp: suffix_def)
  then show "HasSuffix s suf"
    by (simp add: HasSuffix_def)
qed

lemma TrimSuffix_append: "TrimSuffix (s @ suf) suf = s"
  by (simp add: TrimSuffix_def HasSuffix_def)

lemma TrimSuffix_no_suffix: "\<not> suffix suf s \<Longrightarrow> TrimSuffix s suf = s"
  by (simp add: TrimSuffix_def HasSuffix_iff_suffix)

section \<open>Facts about isVulnerableCNAME\<close>

lemma map_JString_string_of: "list_all is_JString xs \<Longrightarrow> map (JString \<circ> string_of) xs = xs"
proof (induction xs)
  case Nil
  then show ?case by simp
next
  case (Cons x xs)
  then show ?case by (cases x) simp_all
qed

lemma patterns_of_SomeD: "patterns_of f = Some ps \<Longrightarrow> f ''cname'' = Some (JArray (map JString ps))"
  by (auto simp: patterns_of_def map_JString_string_of split: option.splits json.splits if_splits)

lemma verdict_of_SomeD: "verdict_of f = Some v \<Longrightarrow> f ''vulnerable'' = Some (JBool v)"
  by (auto simp: verdict_of_def split: option.splits json.splits)

lemma match_cnameList_strings:
  "match_cnameList name (map JString ps) = Inr (\<exists>p\<in>set ps. suffix p name)"
  by (induction ps) (auto simp: HasSuffix_iff_suffix)

lemma match_cnameList_append:
  "match_cnameList t (map JString ps @ rest) =
     (if list_ex (HasSuffix t) ps then Inr True else match_cnameList t rest)"
  by (induction ps) auto

lemma scan_fingerprints_well_shaped:
  assumes "list_all well_shaped fs"
  shows "scan_fingerprints name fs =
     (case find (entry_matches name) fs of
        None \<Rightarrow> Inr (False, False)
      | Some f \<Rightarrow> Inr (True, the (verdict_of f)))"
  using assms
proof (induction fs)
  case Nil
  then show ?case by simp
next
  case (Cons f fs)
  from Cons.prems obtain ps v where ps: "patterns_of f = Some ps" and v: "verdict_of f = Some v"
    by (auto simp: well_shaped_def)
  have m: "entry_matches name f = (\<exists>p\<in>set ps. suffix p name)"
    by (simp add: entry_matches_def ps list_ex_iff HasSuffix_iff_suffix)
  show ?case
  proof (cases "\<exists>p\<in>set ps. suffix p name")
    case True
    then show ?thesis
      using m by (simp add: patterns_of_SomeD [OF ps] verdict_of_SomeD [OF v] match_cnameList_strings v)
  next
    case False
    then show ?thesis
      using m Cons by (simp add: patterns_of_SomeD [OF ps] match_cnameList_strings)
  qed
qed

lemma list_all_range_values:
  assumes "range_order fps ks" and "\<forall>k\<in>dom fps. well_shaped (the (fps k))"
  shows "list_all well_shaped (range_values fps ks)"
  using assms by (auto simp: range_order_def range_values_def list_all_iff)

lemma find_map: "find P (map f xs) = map_option f (find (P \<circ> f) xs)"
  by (induction xs) auto

lemma isVulnerableCNAME_find:
  assumes "range_order fps ks" and "\<forall>k\<in>dom fps. well_shaped (the (fps k))"
  shows "isVulnerableCNAME name (range_values fps ks) =
           (case find (\<lambda>k. entry_matches (TrimSuffix name ''.'') (the (fps k))) ks of
              None \<Rightarrow> Inr (False, False)
            | Some k \<Rightarrow> Inr (True, the (verdict_of (the (fps k)))))"
proof -
  have "isVulnerableCNAME name (range_values fps ks) =
          (case find (entry_matches (TrimSuffix name ''.'')) (range_values fps ks) of
             None \<Rightarrow> Inr (False, False) | Some f \<Rightarrow> Inr (True, the (verdict_of f)))"
    unfolding isVulnerableCNAME_def
    by (rule scan_fingerprints_well_shaped [OF list_all_range_values [OF assms]])
  then show ?thesis
    by (simp add: range_values_def find_map comp_def split: option.splits)
qed

lemma find_SomeD: "find P xs = Some x \<Longrightarrow> P x \<and> x \<in> set xs"
  by (induction xs) (auto split: if_splits)

lemma find_agree:
  assumes s: "set xs = set ys"
    and a: "\<And>x y. x \<in> set xs \<Longrightarrow> y \<in> set xs \<Longrightarrow> P x \<Longrightarrow> P y \<Longrightarrow> g x = g y"
  shows "map_option g (find P xs) = map_option g (find P ys)"
proof (cases "find P xs")
  case None
  then have "\<not> (\<exists>x. x \<in> set xs \<and> P x)"
    using find_None_iff [of P xs] by blast
  with s have "\<not> (\<exists>x. x \<in> set ys \<and> P x)"
    by simp
  then have "find P ys = None"
    using find_None_iff [of P ys] by blast
  with None show ?thesis by simp
next
  case (Some x)
  then have x: "P x \<and> x \<in> set xs"
    by (rule find_SomeD)
  with s have "\<exists>y. y \<in> set ys \<and> P y" by blast
  then have "find P ys \<noteq> None"
    using find_None_iff [of P ys] by blast
  then obtain y where y: "find P ys = Some y"
    by blast
  then have "P y \<and> y \<in> set ys"
    by (rule find_SomeD)
  with s x have "g x = g y"
    by (intro a) simp_all
  with Some y show ?thesis by simp
qed

lemma two_entry_orders:
  "range_order two_entry_store ks \<longleftrightarrow> ks = [''first'', ''second''] \<or> ks = [''second'', ''first'']"
proof
  assume r: "range_order two_entry_store ks"
  then have d: "distinct ks" and s: "set ks = {''first'', ''second''}"
    by (auto simp: range_order_def two_entry_store_def)
  from d s have "length ks = 2"
    using distinct_card [of ks] by simp
  then obtain x y where ks: "ks = [x, y]"
    by (auto simp: length_Suc_conv numeral_2_eq_2)
  with d s show "ks = [''first'', ''second''] \<or> ks = [''second'', ''first'']"
    by (auto simp: doubleton_eq_iff)
next
  assume "ks = [''first'', ''second''] \<or> ks = [''second'', ''first'']"
  then show "range_order two_entry_store ks"
    by (auto simp: range_order_def two_entry_store_def)
qed

lemma shopify_store_order: "range_order shopify_store ks \<longleftrightarrow> ks = [''shopify'']"
proof
  assume "range_order shopify_store ks"
  then have d: "distinct ks" and s: "set ks = {''shopify''}"
    by (auto simp: range_order_def shopify_store_def)
  from d s have "length ks = 1"
    using distinct_card [of ks] by simp
  then obtain x where "ks = [x]"
    by (auto simp: length_Suc_conv)
  with s show "ks = [''shopify'']" by simp
next
  assume "ks = [''shopify'']"
  then show "range_order shopify_store ks"
    by (simp add: range_order_def shopify_store_def)
qed

lemma shopify_store_shaped: "\<forall>k\<in>dom shopify_store. well_shaped (the (shopify_store k))"
  by (auto simp: shopify_store_def shopify_def well_shaped_def patterns_of_def verdict_of_def)

lemma cnameList_cases:
  "(\<exists>ps. xs = map JString ps \<and> \<not> list_ex (HasSuffix t) ps)
   \<or> (\<exists>ps x rest. xs = map JString ps @ x # rest \<and> \<not> list_ex (HasSuffix t) ps
         \<and> (\<not> is_JString x \<or> (\<exists>p. x = JString p \<and> HasSuffix t p)))"
proof (induction xs)
  case Nil
  show ?case
    by (rule disjI1, rule exI [of _ "[]"]) simp
next
  case (Cons x xs)
  show ?case
  proof (cases "\<exists>p. x = JString p \<and> \<not> HasSuffix t p")
    case False
    then have "\<not> is_JString x \<or> (\<exists>p. x = JString p \<and> HasSuffix t p)"
      by (cases x) simp_all
    then show ?thesis
      by (intro disjI2 exI [of _ "[]"] exI [of _ x] exI [of _ xs]) simp
  next
    case True
    then obtain p where p: "x = JString p" "\<not> HasSuffix t p" by blast
    from Cons show ?thesis
    proof
      assume "\<exists>ps. xs = map JString ps \<and> \<not> list_ex (HasSuffix t) ps"
      then obtain ps where "xs = map JString ps" "\<not> list_ex (HasSuffix t) ps" by blast
      with p show ?thesis
        by (intro disjI1 exI [of _ "p # ps"]) simp
    next
      assume "\<exists>ps y rest. xs = map JString ps @ y # rest \<and> \<not> list_ex (HasSuffix t) ps
         \<and> (\<not> is_JString y \<or> (\<exists>q. y = JString q \<and> HasSuffix t q))"
      then obtain ps y rest where "xs = map JString ps @ y # rest"
        "\<not> list_ex (HasSuffix t) ps" "\<not> is_JString y \<or> (\<exists>q. y = JString q \<and> HasSuffix t q)"
        by blast
      with p show ?thesis
        by (intro disjI2 exI [of _ "p # ps"] exI [of _ y] exI [of _ rest]) simp
    qed
  qed
qed

lemma entry_cases: "passes_over t f \<or> panics_at t f \<or> (\<exists>v. returns_at t f v)"
proof (cases "\<exists>xs. f ''cname'' = Some (JArray xs)")
  case False
  then show ?thesis by (simp add: panics_at_def)
next
  case True
  then obtain xs where c: "f ''cname'' = Some (JArray xs)" by blast
  from cnameList_cases [of xs t] show ?thesis
  proof
    assume "\<exists>ps. xs = map JString ps \<and> \<not> list_ex (HasSuffix t) ps"
    then obtain ps where "xs = map JString ps" "\<not> list_ex (HasSuffix t) ps" by blast
    with c have "passes_over t f"
      unfolding passes_over_def by (intro exI [of _ ps]) simp
    then show ?thesis by (rule disjI1)
  next
    assume "\<exists>ps x rest. xs = map JString ps @ x # rest \<and> \<not> list_ex (HasSuffix t) ps
         \<and> (\<not> is_JString x \<or> (\<exists>p. x = JString p \<and> HasSuffix t p))"
    then obtain ps x rest where xs: "xs = map JString ps @ x # rest"
      and n: "\<not> list_ex (HasSuffix t) ps"
      and x: "\<not> is_JString x \<or> (\<exists>p. x = JString p \<and> HasSuffix t p)"
      by blast
    from x show ?thesis
    proof
      assume "\<not> is_JString x"
      with c xs n have "panics_at t f"
        unfolding panics_at_def
        by (intro disjI2 disjI1 exI [of _ ps] exI [of _ x] exI [of _ rest]) simp
      then show ?thesis by simp
    next
      assume "\<exists>p. x = JString p \<and> HasSuffix t p"
      then obtain p where p: "x = JString p" "HasSuffix t p" by blast
      show ?thesis
      proof (cases "\<exists>v. f ''vulnerable'' = Some (JBool v)")
        case True
        then obtain v where "f ''vulnerable'' = Some (JBool v)" by blast
        with c xs n p have "returns_at t f v"
          unfolding returns_at_def
          by (intro exI [of _ ps] exI [of _ p] exI [of _ rest]) simp
        then show ?thesis by blast
      next
        case False
        with c xs n p have "panics_at t f"
          unfolding panics_at_def
          by (intro disjI2 exI [of _ ps] exI [of _ p] exI [of _ rest]) simp
        then show ?thesis by simp
      qed
    qed
  qed
qed

lemma scan_passes_over: "passes_over t f \<Longrightarrow> scan_fingerprints t (f # rest) = scan_fingerprints t rest"
  by (auto simp: passes_over_def match_cnameList_append [of t _ "[]", simplified])

lemma scan_returns_at: "returns_at t f v \<Longrightarrow> scan_fingerprints t (f # rest) = Inr (True, v)"
  by (auto simp: returns_at_def match_cnameList_append)

lemma scan_panics_at: "panics_at t f \<Longrightarrow> scan_fingerprints t (f # rest) = Inl TypeAssertion"
  unfolding panics_at_def
proof (elim disjE exE conjE)
  assume "\<forall>xs. f ''cname'' \<noteq> Some (JArray xs)"
  then show ?thesis by (auto split: option.splits json.splits)
next
  fix ps x r
  assume "f ''cname'' = Some (JArray (map JString ps @ x # r))"
    "\<not> list_ex (HasSuffix t) ps" "\<not> is_JString x"
  then show ?thesis by (cases x) (auto simp: match_cnameList_append)
next
  fix ps p r
  assume "f ''cname'' = Some (JArray (map JString ps @ JString p # r))"
    "\<not> list_ex (HasSuffix t) ps" "HasSuffix t p" "\<forall>v. f ''vulnerable'' \<noteq> Some (JBool v)"
  then show ?thesis by (auto simp: match_cnameList_append split: option.splits json.splits)
qed

lemma scan_prefix_passes:
  "\<forall>g\<in>set pre. passes_over t g \<Longrightarrow> scan_fingerprints t (pre @ rest) = scan_fingerprints t rest"
  by (induction pre) (simp_all add: scan_passes_over del: scan_fingerprints.simps(2))

lemma scan_panic_iff:
  "scan_fingerprints t fs = Inl TypeAssertion \<longleftrightarrow>
     (\<exists>pre f post. fs = pre @ f # post \<and> (\<forall>g\<in>set pre. passes_over t g) \<and> panics_at t f)"
proof
  assume "\<exists>pre f post. fs = pre @ f # post \<and> (\<forall>g\<in>set pre. passes_over t g) \<and> panics_at t f"
  then show "scan_fingerprints t fs = Inl TypeAssertion"
    by (auto simp: scan_prefix_passes scan_panics_at simp del: scan_fingerprints.simps(2))
next
  assume "scan_fingerprints t fs = Inl TypeAssertion"
  then show "\<exists>pre f post. fs = pre @ f # post \<and> (\<forall>g\<in>set pre. passes_over t g) \<and> panics_at t f"
  proof (induction fs)
    case Nil
    then show ?case by simp
  next
    case (Cons f fs)
    from entry_cases [of t f] show ?case
    proof (elim disjE exE)
      assume p: "passes_over t f"
      with Cons.prems have "scan_fingerprints t fs = Inl TypeAssertion"
        by (simp add: scan_passes_over del: scan_fingerprints.simps(2))
      from Cons.IH [OF this] obtain pre g post
        where "fs = pre @ g # post" "\<forall>h\<in>set pre. passes_over t h" "panics_at t g"
        by blast
      with p have "f # fs = (f # pre) @ g # post \<and> (\<forall>h\<in>set (f # pre). passes_over t h)
          \<and> panics_at t g"
        by simp
      then show ?thesis by blast
    next
      assume "panics_at t f"
      then have "f # fs = [] @ f # fs \<and> (\<forall>h\<in>set []. passes_over t h) \<and> panics_at t f"
        by simp
      then show ?thesis by blast
    next
      fix v assume "returns_at t f v"
      with Cons.prems show ?thesis by (simp add: scan_returns_at del: scan_fingerprints.simps(2))
    qed
  qed
qed

lemma scan_match_iff:
  "scan_fingerprints t fs = Inr (True, v) \<longleftrightarrow>
     (\<exists>pre f post. fs = pre @ f # post \<and> (\<forall>g\<in>set pre. passes_over t g) \<and> returns_at t f v)"
proof
  assume "\<exists>pre f post. fs = pre @ f # post \<and> (\<forall>g\<in>set pre. passes_over t g) \<and> returns_at t f v"
  then show "scan_fingerprints t fs = Inr (True, v)"
    by (auto simp: scan_prefix_passes scan_returns_at simp del: scan_fingerprints.simps(2))
next
  assume "scan_fingerprints t fs = Inr (True, v)"
  then show "\<exists>pre f post. fs = pre @ f # post \<and> (\<forall>g\<in>set pre. passes_over t g) \<and> returns_at t f v"
  proof (induction fs)
    case Nil
    then show ?case by simp
  next
    case (Cons f fs)
    from entry_cases [of t f] show ?case
    proof (elim disjE exE)
      assume p: "passes_over t f"
      with Cons.prems have "scan_fingerprints t fs = Inr (True, v)"
        by (simp add: scan_passes_over del: scan_fingerprints.simps(2))
      from Cons.IH [OF this] obtain pre g post
        where "fs = pre @ g # post" "\<forall>h\<in>set pre. passes_over t h" "returns_at t g v"
        by blast
      with p have "f # fs = (f # pre) @ g # post \<and> (\<forall>h\<in>set (f # pre). passes_over t h)
          \<and> returns_at t g v"
        by simp
      then show ?thesis by blast
    next
      assume "panics_at t f"
      with Cons.prems show ?thesis by (simp add: scan_panics_at del: scan_fingerprints.simps(2))
    next
      fix w assume w: "returns_at t f w"
      with Cons.prems have "w = v" by (simp add: scan_returns_at del: scan_fingerprints.simps(2))
      with w have "f # fs = [] @ f # fs \<and> (\<forall>h\<in>set []. passes_over t h) \<and> returns_at t f v"
        by simp
      then show ?thesis by blast
    qed
  qed
qed

lemma scan_no_match_iff:
  "scan_fingerprints t fs = Inr (False, v) \<longleftrightarrow> \<not> v \<and> (\<forall>g\<in>set fs. passes_over t g)"
proof
  assume "\<not> v \<and> (\<forall>g\<in>set fs. passes_over t g)"
  then show "scan_fingerprints t fs = Inr (False, v)"
    using scan_prefix_passes [of fs t "[]"] by (cases v) simp_all
next
  assume "scan_fingerprints t fs = Inr (False, v)"
  then show "\<not> v \<and> (\<forall>g\<in>set fs. passes_over t g)"
  proof (induction fs)
    case Nil
    then show ?case by simp
  next
    case (Cons f fs)
    from entry_cases [of t f] show ?case
    proof (elim disjE exE)
      assume p: "passes_over t f"
      with Cons.prems have "scan_fingerprints t fs = Inr (False, v)"
        by (simp add: scan_passes_over del: scan_fingerprints.simps(2))
      from Cons.IH [OF this] p show ?thesis by simp
    next
      assume "panics_at t f"
      with Cons.prems show ?thesis by (simp add: scan_panics_at del: scan_fingerprints.simps(2))
    next
      fix w assume "returns_at t f w"
      with Cons.prems show ?thesis by (simp add: scan_returns_at del: scan_fingerprints.simps(2))
    qed
  qed
qed


section \<open>Facts about processCNAMEResult and the consumer's loop\<close>

lemma processCNAMEResult_one_entry:
  "processCNAMEResult h r fps ks b = Inr b' \<Longrightarrow> bucket_entries b' = Suc (bucket_entries b)"
  by (auto simp: processCNAMEResult_def appendResultBasedOnVulnerability_def bucket_entries_def
      split: if_splits sum.splits prod.splits)

lemma processCNAMEResult_total:
  assumes "range_order fps ks" and "\<forall>k\<in>dom fps. well_shaped (the (fps k))"
  shows "\<exists>b'. processCNAMEResult h r fps ks b = Inr b'"
proof -
  have "\<exists>m v. isVulnerableCNAME (cname r) (range_values fps ks) = Inr (m, v)"
    by (cases "find (\<lambda>k. entry_matches (TrimSuffix (cname r) ''.'') (the (fps k))) ks")
      (auto simp: isVulnerableCNAME_find [OF assms])
  then obtain m v where "isVulnerableCNAME (cname r) (range_values fps ks) = Inr (m, v)"
    by blast
  then show ?thesis
    by (simp add: processCNAMEResult_def split: prod.splits)
qed

lemma consumer_loop_append:
  "consumer_loop h fps (xs @ ys) b =
     (case consumer_loop h fps xs b of Inl p \<Rightarrow> Inl p | Inr b' \<Rightarrow> consumer_loop h fps ys b')"
  by (induction xs arbitrary: b) (auto split: sum.splits)

lemma consumer_loop_entries:
  "consumer_loop h fps dn b = Inr b' \<Longrightarrow> bucket_entries b' = bucket_entries b + length dn"
proof (induction dn arbitrary: b)
  case Nil
  then show ?case by simp
next
  case (Cons x dn)
  obtain r ks where x: "x = (r, ks)" by (cases x)
  from Cons.prems x obtain b1 where p: "processCNAMEResult h r fps ks b = Inr b1"
    and l: "consumer_loop h fps dn b1 = Inr b'"
    by (auto split: sum.splits)
  from Cons.IH [OF l] processCNAMEResult_one_entry [OF p] show ?case by simp
qed

lemma example_query_a: "queryAndSendCNAME example_dig ''a.test'' = shop_result"
  by (simp add: queryAndSendCNAME_def example_dig_def shop_result_def TrimSpace_def asciiSpace_def)

lemma example_query_b: "queryAndSendCNAME example_dig ''b.test'' = no_record_result"
  by (simp add: queryAndSendCNAME_def example_dig_def no_record_result_def)

lemma classify_shop_result:
  "processCNAMEResult no_helpers shop_result shopify_store [''shopify''] b =
     Inr (b\<lparr>isExploitable := isExploitable b @
       [''CNAME for a.test is: shop.myshopify.com. (found matching fingerprint - vulnerable)'']\<rparr>)"
proof -
  have "isVulnerableCNAME ''shop.myshopify.com.'' (range_values shopify_store [''shopify''])
          = Inr (True, True)"
    by (simp add: range_values_def shopify_store_def shopify_def isVulnerableCNAME_def
        TrimSuffix_def HasSuffix_def)
  then show ?thesis
    by (simp add: processCNAMEResult_def shop_result_def ifThenElse_def
        appendResultBasedOnVulnerability_def)
qed

lemma classify_no_record_result:
  "processCNAMEResult h no_record_result fps ks b =
     Inr (b\<lparr>notFound := notFound b @ [''No CNAME record found for: b.test'']\<rparr>)"
  by (simp add: processCNAMEResult_def no_record_result_def)

lemma example_dn_cases:
  assumes m: "mset (map fst dn) = {#shop_result, no_record_result#}"
    and o: "list_all (\<lambda>(r, ks). range_order shopify_store ks) dn"
  shows "dn = [(shop_result, [''shopify'']), (no_record_result, [''shopify''])]
       \<or> dn = [(no_record_result, [''shopify'']), (shop_result, [''shopify''])]"
proof -
  from m have "size (mset (map fst dn)) = 2" by simp
  then have "length dn = 2" by simp
  then obtain x y where dn: "dn = [x, y]"
    by (auto simp: length_Suc_conv numeral_2_eq_2)
  obtain r1 k1 r2 k2 where xy: "x = (r1, k1)" "y = (r2, k2)"
    by (cases x, cases y) blast
  from o dn xy have k: "k1 = [''shopify'']" "k2 = [''shopify'']"
    by (simp_all add: shopify_store_order)
  from m dn xy have "{#r1, r2#} = {#shop_result, no_record_result#}" by simp
  then have "r1 = shop_result \<and> r2 = no_record_result \<or> r1 = no_record_result \<and> r2 = shop_result"
    by (auto simp: add_eq_conv_ex)
  with dn xy k show ?thesis by auto
qed

section \<open>Facts about writeResults\<close>

lemma writeResults_sections:
  "writeResults True b = Some (section_chunks ''Is Exploitable'' (isExploitable b) [nl]
     @ section_chunks ''Not Exploitable'' (notExploitable b) [nl]
     @ section_chunks ''Exploitability Unknown'' (unknownExploitability b) [])"
  by (simp add: writeResults_def section_chunks_def)

lemma report_chunks:
  "\<exists>chunks. writeResults True b = Some chunks
     \<and> filter (\<lambda>c. c \<noteq> nl) chunks =
         concat (map (\<lambda>(title, items).
                   (''### '' @ title @ nl @ nl) # map (\<lambda>item. ''- '' @ item @ nl) items)
                 (spec_sections b))"
proof -
  have f: "filter (\<lambda>c. c \<noteq> nl) (write_items items) = map (\<lambda>item. ''- '' @ item @ nl) items"
    for items
    by (induction items) (simp_all add: write_items_def nl_def)
  show ?thesis
    by (simp add: writeResults_sections section_chunks_def spec_sections_def f)
qed

lemma lines_from_line:
  "CHR 0x0A \<notin> set l \<Longrightarrow>
   lines_from cur (l @ CHR 0x0A # rest) =
     (if rev cur @ l = [] then [] else [rev cur @ l]) @ lines_from [] rest"
  by (induction l arbitrary: cur) auto

lemma lines_from_items:
  assumes "\<forall>i\<in>set items. CHR 0x0A \<notin> set i"
  shows "lines_from [] (concat (write_items items) @ rest) =
           map (\<lambda>i. ''- '' @ i) items @ lines_from [] rest"
  using assms
proof (induction items)
  case Nil
  then show ?case by (simp add: write_items_def)
next
  case (Cons i items)
  then have n: "CHR 0x0A \<notin> set (''- '' @ i)" by simp
  have "concat (write_items (i # items)) @ rest
          = (''- '' @ i) @ CHR 0x0A # (concat (write_items items) @ rest)"
    by (simp add: write_items_def nl_def)
  then have "lines_from [] (concat (write_items (i # items)) @ rest)
          = [''- '' @ i] @ lines_from [] (concat (write_items items) @ rest)"
    using lines_from_line [OF n, of "[]"] by simp
  with Cons show ?case by simp
qed

lemma lines_from_section:
  assumes t: "CHR 0x0A \<notin> set title"
    and i: "\<forall>i\<in>set items. CHR 0x0A \<notin> set i"
    and tr: "trailer = [] \<or> trailer = [nl]"
  shows "lines_from [] (concat (section_chunks title items trailer) @ rest) =
           (if items = [] then [] else (''### '' @ title) # map (\<lambda>i. ''- '' @ i) items)
           @ lines_from [] rest"
proof (cases "items = []")
  case True
  then show ?thesis by (simp add: section_chunks_def)
next
  case False
  from t have n: "CHR 0x0A \<notin> set (''### '' @ title)" by simp
  have e: "lines_from [] (concat trailer @ rest) = lines_from [] rest"
    using tr by (auto simp: nl_def)
  have "concat (section_chunks title items trailer) @ rest
          = (''### '' @ title) @ CHR 0x0A # ([] @ CHR 0x0A #
              (concat (write_items items) @ (concat trailer @ rest)))"
    using False by (simp add: section_chunks_def nl_def)
  then have "lines_from [] (concat (section_chunks title items trailer) @ rest)
          = [''### '' @ title] @ lines_from [] ([] @ CHR 0x0A #
              (concat (write_items items) @ (concat trailer @ rest)))"
    using lines_from_line [OF n, of "[]"] by simp
  also have "lines_from [] ([] @ CHR 0x0A # (concat (write_items items) @ (concat trailer @ rest)))
          = lines_from [] (concat (write_items items) @ (concat trailer @ rest))"
    by simp
  also have "\<dots> = map (\<lambda>i. ''- '' @ i) items @ lines_from [] (concat trailer @ rest)"
    by (rule lines_from_items [OF i])
  finally show ?thesis
    using False e by simp
qed

lemma report_lines:
  assumes "\<forall>item\<in>set (isExploitable b @ notExploitable b @ unknownExploitability b).
             CHR 0x0A \<notin> set item"
  shows "\<exists>chunks. writeResults True b = Some chunks
           \<and> nonempty_lines (concat chunks) = spec_lines b"
proof -
  let ?s1 = "section_chunks ''Is Exploitable'' (isExploitable b) [nl]"
  let ?s2 = "section_chunks ''Not Exploitable'' (notExploitable b) [nl]"
  let ?s3 = "section_chunks ''Exploitability Unknown'' (unknownExploitability b) []"
  from assms have i1: "\<forall>i\<in>set (isExploitable b). CHR 0x0A \<notin> set i"
    and i2: "\<forall>i\<in>set (notExploitable b). CHR 0x0A \<notin> set i"
    and i3: "\<forall>i\<in>set (unknownExploitability b). CHR 0x0A \<notin> set i"
    by simp_all
  have "nonempty_lines (concat (?s1 @ ?s2 @ ?s3))
          = lines_from [] (concat ?s1 @ (concat ?s2 @ (concat ?s3 @ [])))"
    by (simp add: nonempty_lines_def)
  also have "\<dots> = (if isExploitable b = [] then []
                     else ''### Is Exploitable'' # map (\<lambda>i. ''- '' @ i) (isExploitable b))
        @ lines_from [] (concat ?s2 @ (concat ?s3 @ []))"
    using lines_from_section [OF _ i1, of "''Is Exploitable''" "[nl]"] by simp
  also have "lines_from [] (concat ?s2 @ (concat ?s3 @ []))
      = (if notExploitable b = [] then []
         else ''### Not Exploitable'' # map (\<lambda>i. ''- '' @ i) (notExploitable b))
        @ lines_from [] (concat ?s3 @ [])"
    using lines_from_section [OF _ i2, of "''Not Exploitable''" "[nl]"] by simp
  also have "lines_from [] (concat ?s3 @ [])
      = (if unknownExploitability b = [] then []
         else ''### Exploitability Unknown'' # map (\<lambda>i. ''- '' @ i) (unknownExploitability b))
        @ lines_from [] []"
    using lines_from_section [OF _ i3, of "''Exploitability Unknown''" "[]" "[]"] by simp
  finally have "nonempty_lines (concat (?s1 @ ?s2 @ ?s3)) = spec_lines b"
    by (simp add: spec_lines_def spec_sections_def)
  then show ?thesis
    by (simp add: writeResults_sections)
qed

lemma lines_from_split:
  "lines_from cur (l @ CHR 0x0A # rest) = lines_from cur l @ lines_from [] rest"
  by (induction l arbitrary: cur) auto

lemma lines_from_items_split:
  "lines_from [] (concat (write_items items) @ rest) =
     concat (map (\<lambda>item. nonempty_lines (''- '' @ item)) items) @ lines_from [] rest"
proof (induction items)
  case Nil
  show ?case by (simp add: write_items_def)
next
  case (Cons i items)
  have "concat (write_items (i # items)) @ rest
          = (''- '' @ i) @ CHR 0x0A # (concat (write_items items) @ rest)"
    by (simp add: write_items_def nl_def)
  then have "lines_from [] (concat (write_items (i # items)) @ rest)
          = lines_from [] (''- '' @ i) @ lines_from [] (concat (write_items items) @ rest)"
    by (simp only: lines_from_split)
  with Cons show ?case by (simp add: nonempty_lines_def)
qed

lemma lines_from_section_split:
  assumes t: "CHR 0x0A \<notin> set title"
    and tr: "trailer = [] \<or> trailer = [nl]"
  shows "lines_from [] (concat (section_chunks title items trailer) @ rest) =
           (if items = [] then []
            else (''### '' @ title) # concat (map (\<lambda>item. nonempty_lines (''- '' @ item)) items))
           @ lines_from [] rest"
proof (cases "items = []")
  case True
  then show ?thesis by (simp add: section_chunks_def)
next
  case False
  from t have n: "CHR 0x0A \<notin> set (''### '' @ title)" by simp
  have e: "lines_from [] (concat trailer @ rest) = lines_from [] rest"
    using tr by (auto simp: nl_def)
  have "concat (section_chunks title items trailer) @ rest
          = (''### '' @ title) @ CHR 0x0A # ([] @ CHR 0x0A #
              (concat (write_items items) @ (concat trailer @ rest)))"
    using False by (simp add: section_chunks_def nl_def)
  then have "lines_from [] (concat (section_chunks title items trailer) @ rest)
          = [''### '' @ title] @ lines_from [] ([] @ CHR 0x0A #
              (concat (write_items items) @ (concat trailer @ rest)))"
    using lines_from_line [OF n, of "[]"] by simp
  also have "lines_from [] ([] @ CHR 0x0A # (concat (write_items items) @ (concat trailer @ rest)))
          = lines_from [] (concat (write_items items) @ (concat trailer @ rest))"
    by simp
  also have "\<dots> = concat (map (\<lambda>item. nonempty_lines (''- '' @ item)) items)
      @ lines_from [] (concat trailer @ rest)"
    by (rule lines_from_items_split)
  finally show ?thesis
    using False e by simp
qed

lemma report_lines_split:
  "\<exists>chunks. writeResults True b = Some chunks
     \<and> nonempty_lines (concat chunks) =
         concat (map (\<lambda>(title, items).
                   (''### '' @ title) # concat (map (\<lambda>item. nonempty_lines (''- '' @ item)) items))
                 (spec_sections b))"
proof -
  let ?s1 = "section_chunks ''Is Exploitable'' (isExploitable b) [nl]"
  let ?s2 = "section_chunks ''Not Exploitable'' (notExploitable b) [nl]"
  let ?s3 = "section_chunks ''Exploitability Unknown'' (unknownExploitability b) []"
  let ?L = "\<lambda>items. concat (map (\<lambda>item. nonempty_lines (''- '' @ item)) items)"
  have "nonempty_lines (concat (?s1 @ ?s2 @ ?s3))
          = lines_from [] (concat ?s1 @ (concat ?s2 @ (concat ?s3 @ [])))"
    by (simp add: nonempty_lines_def)
  also have "\<dots> = (if isExploitable b = [] then []
                     else ''### Is Exploitable'' # ?L (isExploitable b))
        @ lines_from [] (concat ?s2 @ (concat ?s3 @ []))"
    using lines_from_section_split [of "''Is Exploitable''" "[nl]"] by simp
  also have "lines_from [] (concat ?s2 @ (concat ?s3 @ []))
      = (if notExploitable b = [] then []
         else ''### Not Exploitable'' # ?L (notExploitable b))
        @ lines_from [] (concat ?s3 @ [])"
    using lines_from_section_split [of "''Not Exploitable''" "[nl]"] by simp
  also have "lines_from [] (concat ?s3 @ [])
      = (if unknownExploitability b = [] then []
         else ''### Exploitability Unknown'' # ?L (unknownExploitability b))
        @ lines_from [] []"
    using lines_from_section_split [of "''Exploitability Unknown''" "[]" _ "[]"] by simp
  finally have "nonempty_lines (concat (?s1 @ ?s2 @ ?s3)) =
         concat (map (\<lambda>(title, items). (''### '' @ title) # ?L items) (spec_sections b))"
    by (simp add: spec_sections_def)
  then show ?thesis
    by (simp add: writeResults_sections)
qed

lemma lines_from_no_feed:
  "CHR 0x0A \<notin> set l \<Longrightarrow> lines_from cur l = (if rev cur @ l = [] then [] else [rev cur @ l])"
  by (induction l arbitrary: cur) auto

lemma bullet_one_line:
  "CHR 0x0A \<notin> set item \<Longrightarrow> nonempty_lines (''- '' @ item) = [''- '' @ item]"
  by (simp add: nonempty_lines_def lines_from_no_feed)


section \<open>Facts about the pipeline\<close>

subsection \<open>Schedules take steps of the transition system\<close>

lemmas step_simplified =
  step.launch [simplified] step.scan_end step.scan_fail step.query [simplified]
  step.send [simplified] step.send_closed step.release [simplified] step.finish [simplified]
  step.wait_done step.close_results step.write_report step.write_fatal step.exit_process
  step.consume step.consume_panic step.consumer_end

lemma perform_step: "perform e a s = Some s' \<Longrightarrow> step e s s'"
proof (cases a)
  case Launch
  assume "perform e a s = Some s'"
  with Launch show ?thesis
    by (auto split: list.splits if_splits intro: step_simplified)
next
  case ScanEnd
  assume "perform e a s = Some s'"
  with ScanEnd show ?thesis
    by (cases "scan_err e") (auto split: if_splits intro: step_simplified)
next
  case (Query d)
  assume "perform e a s = Some s'"
  with Query show ?thesis
    by (auto split: if_splits intro: step_simplified)
next
  case (Send d)
  assume "perform e a s = Some s'"
  with Send show ?thesis
    by (auto split: if_splits intro: step_simplified)
next
  case (Release d)
  assume "perform e a s = Some s'"
  with Release show ?thesis
    by (auto split: if_splits intro: step_simplified)
next
  case (Finish d)
  assume "perform e a s = Some s'"
  with Finish show ?thesis
    by (auto split: if_splits intro: step_simplified)
next
  case WaitDone
  assume "perform e a s = Some s'"
  with WaitDone show ?thesis
    by (auto split: if_splits intro: step_simplified)
next
  case CloseResults
  assume "perform e a s = Some s'"
  with CloseResults show ?thesis
    by (auto split: if_splits intro: step_simplified)
next
  case WriteReport
  assume "perform e a s = Some s'"
  with WriteReport show ?thesis
    by (auto split: if_splits option.splits intro: step_simplified)
next
  case ExitProcess
  assume "perform e a s = Some s'"
  with ExitProcess show ?thesis
    by (auto split: if_splits intro: step_simplified)
next
  case (Consume ks)
  assume "perform e a s = Some s'"
  with Consume show ?thesis
    by (auto split: list.splits if_splits sum.splits
        intro: step_simplified)
next
  case ConsumerEnd
  assume "perform e a s = Some s'"
  with ConsumerEnd show ?thesis
    by (auto split: if_splits intro: step_simplified)
qed

lemma run_schedule_reachable:
  "reachable e cs s \<Longrightarrow> run_schedule e as s = Some s' \<Longrightarrow> reachable e cs s'"
proof (induction as arbitrary: s)
  case Nil
  then show ?case by simp
next
  case (Cons a as)
  from Cons.prems(2) obtain s1 where p: "perform e a s = Some s1" and r: "run_schedule e as s1 = Some s'"
    by (auto split: option.splits)
  from Cons.prems(1) perform_step [OF p] have "reachable e cs s1"
    by (rule reachable.after)
  from Cons.IH [OF this r] show ?case .
qed

lemma halted_no_step: "step e s s' \<Longrightarrow> halted s = None"
  by (induction rule: step.induct) simp_all

lemma early_report_run:
  "run_schedule (example_env shopify_store) early_report_schedule (init [''a.test'']) = Some undrained_state"
  by (simp add: early_report_schedule_def undrained_state_def init_def example_env_def
      example_query_a maxConcurrency_def results_capacity_def writeResults_def no_buckets_def)

lemma drained_run:
  "run_schedule (example_env shopify_store) drained_schedule (init [''a.test'', ''b.test''])
     = Some drained_state"
  by (simp add: drained_schedule_def drained_state_def init_def example_env_def
      example_query_a example_query_b shopify_store_order classify_shop_result
      classify_no_record_result maxConcurrency_def results_capacity_def writeResults_def
      write_items_def no_buckets_def example_buckets_def)

lemma two_line_query: "queryAndSendCNAME two_line_dig ''m.test'' = two_line_result"
  by (simp add: queryAndSendCNAME_def two_line_dig_def two_line_result_def TrimSpace_def
      asciiSpace_def nl_def)

lemma classify_two_line_result:
  "processCNAMEResult no_helpers two_line_result shopify_store [''shopify''] b =
     Inr (b\<lparr>isExploitable := isExploitable b @ [two_line_item]\<rparr>)"
proof -
  have "isVulnerableCNAME (cname two_line_result) (range_values shopify_store [''shopify''])
          = Inr (True, True)"
    by (simp add: range_values_def shopify_store_def shopify_def isVulnerableCNAME_def
        TrimSuffix_def HasSuffix_def two_line_result_def nl_def)
  then show ?thesis
    by (simp add: processCNAMEResult_def ifThenElse_def appendResultBasedOnVulnerability_def
        two_line_item_def)
      (simp add: two_line_result_def nl_def)
qed

lemma two_line_run:
  "run_schedule two_line_env two_line_schedule (init [''m.test'']) = Some two_line_state"
  by (simp add: two_line_schedule_def two_line_state_def init_def two_line_env_def
      two_line_query shopify_store_order classify_two_line_result maxConcurrency_def
      results_capacity_def writeResults_def write_items_def no_buckets_def)

subsection \<open>The semaphore and the WaitGroup\<close>

lemma size_filter_remove:
  "x \<in># M \<Longrightarrow> size (filter_mset P (M - {#x#})) = size (filter_mset P M) - (if P x then 1 else 0)"
  by (auto dest!: multi_member_split)

lemma size_filter_pos: "x \<in># M \<Longrightarrow> P x \<Longrightarrow> 0 < size (filter_mset P M)"
  by (auto dest!: multi_member_split)

lemma slots_inv_init: "slots_inv (init cs)"
  by (simp add: slots_inv_def init_def)

lemma slots_inv_step:
  assumes "step e s s'" and "slots_inv s"
  shows "slots_inv s'"
  using assms
proof (induction rule: step.induct)
  case (launch s d ds)
  then show ?case by (simp add: slots_inv_def holds_slot_def)
next
  case (query s d)
  then obtain W where "workers s = add_mset (d, Querying) W"
    by (blast dest: multi_member_split)
  with query show ?case by (simp add: slots_inv_def holds_slot_def)
next
  case (send s d r)
  then obtain W where "workers s = add_mset (d, Sending r) W"
    by (blast dest: multi_member_split)
  with send show ?case by (simp add: slots_inv_def holds_slot_def)
next
  case (release s d)
  then obtain W where "workers s = add_mset (d, Releasing) W"
    by (blast dest: multi_member_split)
  with release show ?case by (simp add: slots_inv_def holds_slot_def)
next
  case (finish s d)
  then obtain W where "workers s = add_mset (d, Finishing) W"
    by (blast dest: multi_member_split)
  with finish show ?case by (simp add: slots_inv_def holds_slot_def)
qed (simp_all add: slots_inv_def)

lemma slots_inv_reachable: "reachable e cs s \<Longrightarrow> slots_inv s"
  by (induction rule: reachable.induct) (auto intro: slots_inv_init slots_inv_step)

subsection \<open>The channel is closed after the last send\<close>

lemma barrier_inv_init: "barrier_inv (init cs)"
  by (simp add: barrier_inv_def init_def)

lemma barrier_inv_step:
  assumes "step e s s'" and "barrier_inv s" and "slots_inv s"
  shows "barrier_inv s'"
  using assms
proof (induction rule: step.induct)
  case (wait_done s)
  then show ?case by (simp add: barrier_inv_def slots_inv_def)
qed (auto simp: barrier_inv_def)

lemma barrier_inv_reachable: "reachable e cs s \<Longrightarrow> barrier_inv s"
proof (induction rule: reachable.induct)
  case start
  show ?case by (rule barrier_inv_init)
next
  case (after s s')
  from after.hyps(1) have "slots_inv s" by (rule slots_inv_reachable)
  with after show ?case by (auto intro: barrier_inv_step)
qed

subsection \<open>Every candidate is accounted for\<close>

lemma accounting_inv_init: "accounting_inv e cs (init cs)"
proof -
  have "accounted_for e cs (init cs) []"
    by (simp add: accounted_for_def init_def)
  then show ?thesis
    by (auto simp: accounting_inv_def init_def)
qed

lemma accounting_inv_step:
  assumes "step e s s'" and "accounting_inv e cs s"
  shows "accounting_inv e cs s'"
  using assms
proof (induction rule: step.induct)
  case (launch s d ds)
  then obtain dn where "accounted_for e cs s dn"
    by (auto simp: accounting_inv_def)
  with launch have "accounted_for e cs
      (s\<lparr>todo := ds, wg := wg s + 1, sem := sem s + 1, workers := workers s + {#(d, Querying)#}\<rparr>) dn"
    by (simp add: accounted_for_def unsent_def)
  with launch show ?case
    by (auto simp: accounting_inv_def sends_own_def)
next
  case (query s d)
  then obtain W where W: "workers s = add_mset (d, Querying) W"
    by (blast dest: multi_member_split)
  from query obtain dn where "accounted_for e cs s dn"
    by (auto simp: accounting_inv_def)
  with W have "accounted_for e cs
      (s\<lparr>workers := workers s - {#(d, Querying)#} + {#(d, Sending (queryAndSendCNAME (dig e) d))#}\<rparr>) dn"
    by (simp add: accounted_for_def unsent_def)
  with query W show ?case
    by (auto simp: accounting_inv_def sends_own_def)
next
  case (send s d r)
  then obtain W where W: "workers s = add_mset (d, Sending r) W"
    by (blast dest: multi_member_split)
  from send W have r: "r = queryAndSendCNAME (dig e) d"
    by (simp add: accounting_inv_def sends_own_def)
  from send obtain dn where "accounted_for e cs s dn"
    by (auto simp: accounting_inv_def)
  with W r have "accounted_for e cs
      (s\<lparr>results := results s @ [r], workers := workers s - {#(d, Sending r)#} + {#(d, Releasing)#}\<rparr>) dn"
    by (simp add: accounted_for_def unsent_def)
  with send W show ?case
    by (auto simp: accounting_inv_def sends_own_def)
next
  case (release s d)
  then obtain W where W: "workers s = add_mset (d, Releasing) W"
    by (blast dest: multi_member_split)
  from release obtain dn where "accounted_for e cs s dn"
    by (auto simp: accounting_inv_def)
  with W have "accounted_for e cs
      (s\<lparr>sem := sem s - 1, workers := workers s - {#(d, Releasing)#} + {#(d, Finishing)#}\<rparr>) dn"
    by (simp add: accounted_for_def unsent_def)
  with release W show ?case
    by (auto simp: accounting_inv_def sends_own_def)
next
  case (finish s d)
  then obtain W where W: "workers s = add_mset (d, Finishing) W"
    by (blast dest: multi_member_split)
  from finish obtain dn where "accounted_for e cs s dn"
    by (auto simp: accounting_inv_def)
  with W have "accounted_for e cs
      (s\<lparr>wg := wg s - 1, workers := workers s - {#(d, Finishing)#}\<rparr>) dn"
    by (simp add: accounted_for_def unsent_def)
  with finish W show ?case
    by (auto simp: accounting_inv_def sends_own_def)
next
  case (consume s r rs ks b')
  then obtain dn where dn: "accounted_for e cs s dn"
    by (auto simp: accounting_inv_def)
  with consume have "accounted_for e cs (s\<lparr>results := rs, bkts := b'\<rparr>) (dn @ [(r, ks)])"
    by (simp add: accounted_for_def consumer_loop_append)
  with consume show ?case
    by (auto simp: accounting_inv_def)
qed (auto simp: accounting_inv_def accounted_for_def)

lemma accounting_inv_reachable: "reachable e cs s \<Longrightarrow> accounting_inv e cs s"
  by (induction rule: reachable.induct) (auto intro: accounting_inv_init accounting_inv_step)

lemma every_candidate_accounted_for:
  assumes "reachable e cs s" and "halted s \<noteq> Some Panicked"
  shows "length (todo s) + size (filter_mset unsent (workers s)) + length (results s)
           + bucket_entries (bkts s) = length cs"
proof -
  from assms obtain dn where a: "accounted_for e cs s dn"
    using accounting_inv_reachable [of e cs s] by (auto simp: accounting_inv_def)
  then have "size (image_mset (queryAndSendCNAME (dig e)) (mset (todo s))
          + image_mset (\<lambda>w. queryAndSendCNAME (dig e) (fst w)) (filter_mset unsent (workers s))
          + mset (results s) + mset (map fst dn))
        = size (image_mset (queryAndSendCNAME (dig e)) (mset cs))"
    by (simp only: accounted_for_def)
  then have "length (todo s) + size (filter_mset unsent (workers s)) + length (results s)
      + length dn = length cs"
    by simp
  moreover from a have "bucket_entries (bkts s) = length dn"
    using consumer_loop_entries [of "helper_fns e" "store e" dn no_buckets "bkts s"]
    by (simp add: accounted_for_def bucket_entries_def no_buckets_def)
  ultimately show ?thesis by simp
qed

lemma closed_after_all_results_sent:
  assumes "reachable e cs s" and "closed s" and "halted s \<noteq> Some Panicked"
  shows "todo s = [] \<and> workers s = {#}
       \<and> length (results s) + bucket_entries (bkts s) = length cs"
proof -
  from assms(1) have "barrier_inv s" by (rule barrier_inv_reachable)
  with assms(2) have "todo s = []" "workers s = {#}"
    by (simp_all add: barrier_inv_def)
  with every_candidate_accounted_for [OF assms(1) assms(3)] show ?thesis by simp
qed

lemma no_panic_reachable:
  assumes w: "\<forall>k\<in>dom (store e). well_shaped (the (store e k))"
    and r: "reachable e cs s"
  shows "halted s \<noteq> Some Panicked"
  using r
proof (induction rule: reachable.induct)
  case start
  show ?case by (simp add: init_def)
next
  case (after s s')
  from after.hyps(1) have b: "barrier_inv s" by (rule barrier_inv_reachable)
  from after.hyps(2) b show ?case
  proof (induction rule: step.induct)
    case (send_closed s d r)
    then show ?case by (auto simp: barrier_inv_def)
  next
    case (consume_panic s r rs ks p)
    with processCNAMEResult_total [OF consume_panic(4) w, of "helper_fns e" r "bkts s"]
    show ?case by simp
  qed simp_all
qed

lemma empty_run:
  assumes "reachable e [] s"
  shows "todo s = [] \<and> workers s = {#} \<and> results s = [] \<and> bkts s = no_buckets
       \<and> (report s = None \<or> report s = Some [])"
  using assms
proof (induction rule: reachable.induct)
  case start
  show ?case by (simp add: init_def)
next
  case (after s s')
  from after.hyps(2) after.IH show ?case
    by (induction rule: step.induct)
      (auto simp: writeResults_def no_buckets_def split: if_splits)
qed

subsection \<open>Workers run to their release\<close>

lemma launch_n:
  "halted s = None \<Longrightarrow> pc s = Scanning \<Longrightarrow> todo s = replicate n d @ rest \<Longrightarrow>
   sem s + n \<le> maxConcurrency \<Longrightarrow>
   run_schedule e (replicate n Launch) s =
     Some (s\<lparr>todo := rest, wg := wg s + n, sem := sem s + n,
             workers := workers s + replicate_mset n (d, Querying)\<rparr>)"
proof (induction n arbitrary: s)
  case 0
  then show ?case by simp
next
  case (Suc n)
  let ?s1 = "s\<lparr>todo := replicate n d @ rest, wg := wg s + 1, sem := sem s + 1,
               workers := workers s + {#(d, Querying)#}\<rparr>"
  from Suc.prems have p: "perform e Launch s = Some ?s1"
    by simp
  from Suc.prems have "run_schedule e (replicate n Launch) ?s1 =
     Some (?s1\<lparr>todo := rest, wg := wg ?s1 + n, sem := sem ?s1 + n,
             workers := workers ?s1 + replicate_mset n (d, Querying)\<rparr>)"
    by (intro Suc.IH) simp_all
  with p show ?case by simp
qed

lemma full_state_run:
  "run_schedule e (replicate 20 Launch) (init (replicate 21 ''b.test'')) = Some full_state"
proof -
  have "replicate (20 + 1) ''b.test'' = replicate 20 ''b.test'' @ replicate 1 ''b.test''"
    by (rule replicate_add)
  then have t: "todo (init (replicate 21 ''b.test'')) = replicate 20 ''b.test'' @ [''b.test'']"
    by (simp add: init_def)
  from launch_n [of "init (replicate 21 ''b.test'')" 20 "''b.test''" "[''b.test'']" e, OF _ _ t]
  show ?thesis
    by (simp add: init_def maxConcurrency_def full_state_def)
qed

lemma worker_runs_to_release:
  assumes r: "reachable e cs s" and h: "halted s = None"
    and q: "(d, Querying) \<in># workers s" and c: "length (results s) < results_capacity"
  shows "(step e)\<^sup>*\<^sup>* s
           (s\<lparr>sem := sem s - 1, results := results s @ [queryAndSendCNAME (dig e) d],
              workers := workers s - {#(d, Querying)#} + {#(d, Finishing)#}\<rparr>)"
proof -
  let ?r = "queryAndSendCNAME (dig e) d"
  let ?s1 = "s\<lparr>workers := workers s - {#(d, Querying)#} + {#(d, Sending ?r)#}\<rparr>"
  let ?s2 = "?s1\<lparr>results := results ?s1 @ [?r],
                 workers := workers ?s1 - {#(d, Sending ?r)#} + {#(d, Releasing)#}\<rparr>"
  let ?s3 = "?s2\<lparr>sem := sem ?s2 - 1,
                 workers := workers ?s2 - {#(d, Releasing)#} + {#(d, Finishing)#}\<rparr>"
  from r have "barrier_inv s" by (rule barrier_inv_reachable)
  with q have nc: "\<not> closed s" by (auto simp: barrier_inv_def)
  from r have "slots_inv s" by (rule slots_inv_reachable)
  moreover from q have "0 < size (filter_mset holds_slot (workers s))"
    by (rule size_filter_pos) (simp add: holds_slot_def)
  ultimately have pos: "0 < sem s" by (simp add: slots_inv_def)
  from h q have 1: "step e s ?s1" by (rule step.query)
  have m2: "(d, Sending ?r) \<in># workers ?s1" by simp
  have 2: "step e ?s1 ?s2"
    by (rule step.send [OF _ m2]) (simp_all add: h nc c)
  have m3: "(d, Releasing) \<in># workers ?s2" by simp
  have 3: "step e ?s2 ?s3"
    by (rule step.release [OF _ m3]) (simp_all add: h pos)
  have e: "?s3 = s\<lparr>sem := sem s - 1, results := results s @ [?r],
              workers := workers s - {#(d, Querying)#} + {#(d, Finishing)#}\<rparr>"
    by simp
  from 1 have "(step e)\<^sup>*\<^sup>* s ?s1" by (rule r_into_rtranclp)
  from this 2 have "(step e)\<^sup>*\<^sup>* s ?s2" by (rule rtranclp.rtrancl_into_rtrancl)
  from this 3 have "(step e)\<^sup>*\<^sup>* s ?s3" by (rule rtranclp.rtrancl_into_rtrancl)
  then show ?thesis by (subst e [symmetric])
qed


lemma filter_replicate_mset_same: "P x \<Longrightarrow> filter_mset P (replicate_mset n x) = replicate_mset n x"
  by (induction n) simp_all

section \<open>The claims\<close>

text \<open>
  C1, as stated, fails: the store is a Go map, and \<open>range\<close> over a map does not visit
  the entries in the order they were loaded. On the two-entry store of the example a
  visit that starts with the entry \<open>second\<close> classifies \<open>x.a.example\<close> as vulnerable.
\<close>

theorem first_match_not_load_order_counterexample:
  "range_order two_entry_store [''second'', ''first'']
   \<and> isVulnerableCNAME ''x.a.example'' (range_values two_entry_store [''second'', ''first''])
       = Inr (True, True)"
proof
  show "range_order two_entry_store [''second'', ''first'']"
    by (simp add: two_entry_orders)
  show "isVulnerableCNAME ''x.a.example'' (range_values two_entry_store [''second'', ''first''])
       = Inr (True, True)"
    by (simp add: range_values_def two_entry_store_def first_entry_def
        second_entry_def isVulnerableCNAME_def TrimSuffix_def HasSuffix_def)
qed

text \<open>
  C1, amended. For a store of the spec's shape and whatever order \<open>ks\<close> the \<open>range\<close>
  statement visits it in, \<open>isVulnerableCNAME\<close> returns the verdict of the first entry
  in that visiting order one of whose patterns the dot-trimmed name ends with, and
  \<open>(false, false)\<close> when there is none. On the two-entry store every name ending in
  \<open>a.example\<close> is matched, and is vulnerable exactly when the entry \<open>second\<close> is
  visited first.
\<close>

theorem isVulnerableCNAME_first_match_in_visiting_order:
  assumes "range_order fps ks" and "\<forall>k\<in>dom fps. well_shaped (the (fps k))"
  shows "isVulnerableCNAME name (range_values fps ks) =
           (case find (\<lambda>k. entry_matches (TrimSuffix name ''.'') (the (fps k))) ks of
              None \<Rightarrow> Inr (False, False)
            | Some k \<Rightarrow> Inr (True, the (verdict_of (the (fps k)))))
       \<and> (\<forall>ks'. range_order two_entry_store ks' \<and> suffix ''a.example'' (TrimSuffix name ''.'')
             \<longrightarrow> isVulnerableCNAME name (range_values two_entry_store ks')
                   = Inr (True, hd ks' = ''second''))"
proof -
  have general: "isVulnerableCNAME name (range_values fps ks) =
           (case find (\<lambda>k. entry_matches (TrimSuffix name ''.'') (the (fps k))) ks of
              None \<Rightarrow> Inr (False, False)
            | Some k \<Rightarrow> Inr (True, the (verdict_of (the (fps k)))))"
    by (rule isVulnerableCNAME_find [OF assms])
  have two: "isVulnerableCNAME name (range_values two_entry_store ks')
                   = Inr (True, hd ks' = ''second'')"
    if o: "range_order two_entry_store ks'" and s: "suffix ''a.example'' (TrimSuffix name ''.'')"
    for ks'
  proof -
    from s have h: "HasSuffix (TrimSuffix name ''.'') ''a.example''"
      by (simp add: HasSuffix_iff_suffix)
    from o have "ks' = [''first'', ''second''] \<or> ks' = [''second'', ''first'']"
      by (simp add: two_entry_orders)
    then show ?thesis
      using h by (auto simp: range_values_def two_entry_store_def first_entry_def
          second_entry_def isVulnerableCNAME_def)
  qed
  from general two show ?thesis by blast
qed

theorem isVulnerableCNAME_first_match_in_visiting_order_witness:
  "range_order two_entry_store [''second'', ''first'']
   \<and> well_shaped first_entry \<and> well_shaped second_entry
   \<and> isVulnerableCNAME ''x.a.example.'' (range_values two_entry_store [''second'', ''first''])
       = Inr (True, True)
   \<and> isVulnerableCNAME ''x.a.example.'' (range_values two_entry_store [''first'', ''second''])
       = Inr (True, False)"
proof -
  have o: "range_order two_entry_store [''second'', ''first'']"
    by (simp add: two_entry_orders)
  have o': "range_order two_entry_store [''first'', ''second'']"
    by (simp add: two_entry_orders)
  have w: "\<forall>k\<in>dom two_entry_store. well_shaped (the (two_entry_store k))"
    by (auto simp: two_entry_store_def first_entry_def second_entry_def well_shaped_def
        patterns_of_def verdict_of_def)
  have s: "suffix ''a.example'' (TrimSuffix ''x.a.example.'' ''.'')"
    by (simp add: HasSuffix_iff_suffix [symmetric] TrimSuffix_def HasSuffix_def)
  note t = isVulnerableCNAME_first_match_in_visiting_order [OF o w, of "''x.a.example.''"]
  from t o s have a: "isVulnerableCNAME ''x.a.example.''
      (range_values two_entry_store [''second'', ''first'']) = Inr (True, hd [''second'', ''first''] = ''second'')"
    by blast
  from t o' s have b: "isVulnerableCNAME ''x.a.example.''
      (range_values two_entry_store [''first'', ''second'']) = Inr (True, hd [''first'', ''second''] = ''second'')"
    by blast
  have w1: "well_shaped first_entry" and w2: "well_shaped second_entry"
    by (auto simp: first_entry_def second_entry_def well_shaped_def patterns_of_def
        verdict_of_def)
  from o w1 w2 a b show ?thesis by simp
qed

text \<open>
  C2, on the code: the supervisor closes the channel only after every worker has sent
  (\<open>closed_after_all_results_sent\<close> above), but nothing makes it wait for the
  consumer before line 181, whose comment reads "Write results after processing". On
  the one candidate \<open>a.test\<close> the run below reaches the end of \<open>writeResults\<close> with
  the result still in the queue, the consumer still in its loop, no bucket entry and an
  empty report.
\<close>

theorem report_written_before_consumer_drains:
  "reachable (example_env shopify_store) [''a.test''] undrained_state
   \<and> pc undrained_state = Returned \<and> report undrained_state = Some []
   \<and> consuming undrained_state \<and> results undrained_state = [shop_result]
   \<and> bucket_entries (bkts undrained_state) = 0"
proof -
  from reachable.start early_report_run
  have "reachable (example_env shopify_store) [''a.test''] undrained_state"
    by (rule run_schedule_reachable)
  then show ?thesis
    by (simp add: undrained_state_def bucket_entries_def no_buckets_def)
qed

text \<open>
  C3, as stated, fails: \<open>isVulnerableCNAME\<close> trims the dot from its own copy of the
  name, and line 278 formats \<open>result.cname\<close> as the resolver returned it. The
  Exploitable line of the example ends in \<open>shop.myshopify.com.\<close>, with the dot, not
  in \<open>shop.myshopify.com\<close>.
\<close>

theorem end_to_end_line_without_dot_counterexample:
  "consumer_loop no_helpers shopify_store
     [(queryAndSendCNAME example_dig ''a.test'', [''shopify'']),
      (queryAndSendCNAME example_dig ''b.test'', [''shopify''])] no_buckets = Inr example_buckets
   \<and> isExploitable example_buckets
       \<noteq> [''CNAME for a.test is: shop.myshopify.com (found matching fingerprint - vulnerable)'']"
  by (simp add: example_query_a example_query_b classify_shop_result classify_no_record_result
      example_buckets_def no_buckets_def)

text \<open>
  C3, amended. On the candidates \<open>a.test\<close> and \<open>b.test\<close> of the example, in every
  state of a run in which both lines are scanned, both workers have ended and the queue
  is empty, the buckets are: Exploitable the one line
  \<open>CNAME for a.test is: shop.myshopify.com. (found matching fingerprint - vulnerable)\<close>
  (the resolved name as returned, with its dot), NoRecord the one line
  \<open>No CNAME record found for: b.test\<close>, the others empty. A direct match and a
  service match go to Exploitable when vulnerable and to NotExploitable when not, with
  the line that names the domain, the resolved name and the match basis.
\<close>

theorem end_to_end_example_buckets:
  "(reachable (example_env shopify_store) [''a.test'', ''b.test''] s
      \<and> todo s = [] \<and> workers s = {#} \<and> results s = [] \<longrightarrow> bkts s = example_buckets)
   \<and> (err r = None \<and> cname r \<noteq> []
        \<and> isVulnerableCNAME (cname r) (range_values fps ks) = Inr (True, v)
       \<longrightarrow> processCNAMEResult h r fps ks b =
             Inr (if v
                  then b\<lparr>isExploitable := isExploitable b @
                         [''CNAME for '' @ domain r @ '' is: '' @ cname r
                            @ '' (found matching fingerprint - vulnerable)'']\<rparr>
                  else b\<lparr>notExploitable := notExploitable b @
                         [''CNAME for '' @ domain r @ '' is: '' @ cname r
                            @ '' (found matching fingerprint - safe)'']\<rparr>))
   \<and> (err r = None \<and> cname r \<noteq> []
        \<and> isVulnerableCNAME (cname r) (range_values fps ks) = Inr (False, x)
        \<and> isServiceVulnerable h (extractServiceName h (cname r)) fps = (True, v, svc, ft, nx)
       \<longrightarrow> processCNAMEResult h r fps ks b =
             Inr (if v
                  then b\<lparr>isExploitable := isExploitable b @
                         [''CNAME for '' @ domain r @ '' is: '' @ cname r
                            @ '' (found potentially matching service '' @ [CHR 0x27] @ svc
                            @ [CHR 0x27] @ '' - vulnerable)'']\<rparr>
                  else b\<lparr>notExploitable := notExploitable b @
                         [''CNAME for '' @ domain r @ '' is: '' @ cname r
                            @ '' (found potentially matching service '' @ [CHR 0x27] @ svc
                            @ [CHR 0x27] @ '' - safe)'']\<rparr>))"
proof -
  let ?e = "example_env shopify_store"
  have a: "bkts s = example_buckets"
    if r: "reachable ?e [''a.test'', ''b.test''] s"
      and d: "todo s = []" "workers s = {#}" "results s = []"
  proof -
    have "\<forall>k\<in>dom (store ?e). well_shaped (the (store ?e k))"
      using shopify_store_shaped by (simp add: example_env_def)
    from no_panic_reachable [OF this r] have "halted s \<noteq> Some Panicked" .
    with accounting_inv_reachable [OF r] obtain dn
      where acc: "accounted_for ?e [''a.test'', ''b.test''] s dn"
      by (auto simp: accounting_inv_def)
    from acc d have m: "mset (map fst dn) = {#shop_result, no_record_result#}"
      by (simp add: accounted_for_def example_env_def example_query_a example_query_b)
    from acc have o: "list_all (\<lambda>(r, ks). range_order shopify_store ks) dn"
      by (simp add: accounted_for_def example_env_def)
    from acc have l: "consumer_loop no_helpers shopify_store dn no_buckets = Inr (bkts s)"
      by (simp add: accounted_for_def example_env_def)
    from example_dn_cases [OF m o] l show ?thesis
      by (auto simp: classify_shop_result classify_no_record_result example_buckets_def
          no_buckets_def)
  qed
  have b: "processCNAMEResult h r fps ks b =
             Inr (if v
                  then b\<lparr>isExploitable := isExploitable b @
                         [''CNAME for '' @ domain r @ '' is: '' @ cname r
                            @ '' (found matching fingerprint - vulnerable)'']\<rparr>
                  else b\<lparr>notExploitable := notExploitable b @
                         [''CNAME for '' @ domain r @ '' is: '' @ cname r
                            @ '' (found matching fingerprint - safe)'']\<rparr>)"
    if "err r = None" "cname r \<noteq> []"
      "isVulnerableCNAME (cname r) (range_values fps ks) = Inr (True, v)"
    using that
    by (simp add: processCNAMEResult_def appendResultBasedOnVulnerability_def ifThenElse_def)
  have c: "processCNAMEResult h r fps ks b =
             Inr (if v
                  then b\<lparr>isExploitable := isExploitable b @
                         [''CNAME for '' @ domain r @ '' is: '' @ cname r
                            @ '' (found potentially matching service '' @ [CHR 0x27] @ svc
                            @ [CHR 0x27] @ '' - vulnerable)'']\<rparr>
                  else b\<lparr>notExploitable := notExploitable b @
                         [''CNAME for '' @ domain r @ '' is: '' @ cname r
                            @ '' (found potentially matching service '' @ [CHR 0x27] @ svc
                            @ [CHR 0x27] @ '' - safe)'']\<rparr>)"
    if "err r = None" "cname r \<noteq> []"
      "isVulnerableCNAME (cname r) (range_values fps ks) = Inr (False, x)"
      "isServiceVulnerable h (extractServiceName h (cname r)) fps = (True, v, svc, ft, nx)"
    using that
    by (simp add: processCNAMEResult_def appendResultBasedOnVulnerability_def ifThenElse_def)
  from a b c show ?thesis by blast
qed

theorem end_to_end_example_buckets_witness:
  "reachable (example_env shopify_store) [''a.test'', ''b.test''] drained_state
   \<and> todo drained_state = [] \<and> workers drained_state = {#} \<and> results drained_state = []
   \<and> bkts drained_state = example_buckets
   \<and> isVulnerableCNAME (cname shop_result) (range_values shopify_store [''shopify''])
       = Inr (True, True)
   \<and> processCNAMEResult no_helpers shop_result shopify_store [''shopify''] no_buckets
       = Inr (no_buckets\<lparr>isExploitable :=
           [''CNAME for a.test is: shop.myshopify.com. (found matching fingerprint - vulnerable)'']\<rparr>)"
proof -
  from reachable.start drained_run
  have r: "reachable (example_env shopify_store) [''a.test'', ''b.test''] drained_state"
    by (rule run_schedule_reachable)
  have d: "todo drained_state = []" "workers drained_state = {#}" "results drained_state = []"
    by (simp_all add: drained_state_def)
  have v: "isVulnerableCNAME (cname shop_result) (range_values shopify_store [''shopify''])
       = Inr (True, True)"
    by (simp add: range_values_def shopify_store_def shopify_def isVulnerableCNAME_def
        TrimSuffix_def HasSuffix_def shop_result_def)
  have h: "err shop_result = None" "cname shop_result \<noteq> []"
    by (simp_all add: shop_result_def)
  note t = end_to_end_example_buckets [of drained_state shop_result shopify_store
      "[''shopify'']" True no_helpers no_buckets]
  from t r d have a: "bkts drained_state = example_buckets" by blast
  from t h v have "processCNAMEResult no_helpers shop_result shopify_store [''shopify''] no_buckets
       = Inr (if True
              then no_buckets\<lparr>isExploitable := isExploitable no_buckets @
                     [''CNAME for '' @ domain shop_result @ '' is: '' @ cname shop_result
                        @ '' (found matching fingerprint - vulnerable)'']\<rparr>
              else no_buckets\<lparr>notExploitable := notExploitable no_buckets @
                     [''CNAME for '' @ domain shop_result @ '' is: '' @ cname shop_result
                        @ '' (found matching fingerprint - safe)'']\<rparr>)"
    by blast
  then have b: "processCNAMEResult no_helpers shop_result shopify_store [''shopify''] no_buckets
       = Inr (no_buckets\<lparr>isExploitable :=
           [''CNAME for a.test is: shop.myshopify.com. (found matching fingerprint - vulnerable)'']\<rparr>)"
    by (simp add: shop_result_def no_buckets_def)
  from r d a v b show ?thesis by blast
qed

text \<open>
  C4. \<open>isVulnerableCNAME\<close> removes exactly one trailing dot from the resolved name (a
  name that ends in a dot loses that dot only, a name that does not is unchanged) and
  then matches by exact suffix: over a store of the spec's shape it reports a match
  exactly when some entry has a pattern that is a suffix of the trimmed name, and returns
  \<open>(false, false)\<close> when none has; \<open>shop.myshopify.com.\<close> matches the pattern
  \<open>myshopify.com\<close>.
\<close>

theorem isVulnerableCNAME_trims_one_dot_then_suffix:
  assumes "list_all well_shaped visited"
  shows "TrimSuffix (n @ ''.'') ''.'' = n
       \<and> (\<not> suffix ''.'' n \<longrightarrow> TrimSuffix n ''.'' = n)
       \<and> ((\<exists>v. isVulnerableCNAME name visited = Inr (True, v)) \<longleftrightarrow>
            (\<exists>f\<in>set visited. \<exists>ps. patterns_of f = Some ps
                \<and> (\<exists>p\<in>set ps. suffix p (TrimSuffix name ''.''))))
       \<and> (\<not> (\<exists>f\<in>set visited. \<exists>ps. patterns_of f = Some ps
                \<and> (\<exists>p\<in>set ps. suffix p (TrimSuffix name ''.'')))
            \<longrightarrow> isVulnerableCNAME name visited = Inr (False, False))
       \<and> isVulnerableCNAME ''shop.myshopify.com.'' [shopify] = Inr (True, True)"
proof -
  let ?t = "TrimSuffix name ''.''"
  let ?M = "\<exists>f\<in>set visited. \<exists>ps. patterns_of f = Some ps \<and> (\<exists>p\<in>set ps. suffix p ?t)"
  have em: "entry_matches ?t f \<longleftrightarrow> (\<exists>ps. patterns_of f = Some ps \<and> (\<exists>p\<in>set ps. suffix p ?t))" for f
    by (auto simp: entry_matches_def list_ex_iff HasSuffix_iff_suffix split: option.splits)
  have scan: "isVulnerableCNAME name visited =
      (case find (entry_matches ?t) visited of
         None \<Rightarrow> Inr (False, False) | Some f \<Rightarrow> Inr (True, the (verdict_of f)))"
    unfolding isVulnerableCNAME_def by (rule scan_fingerprints_well_shaped [OF assms])
  have none: "find (entry_matches ?t) visited = None \<longleftrightarrow> \<not> ?M"
    by (auto simp: find_None_iff em)
  have a: "TrimSuffix (n @ ''.'') ''.'' = n"
    by (rule TrimSuffix_append)
  have b: "\<not> suffix ''.'' n \<longrightarrow> TrimSuffix n ''.'' = n"
    by (simp add: TrimSuffix_no_suffix)
  have c: "(\<exists>v. isVulnerableCNAME name visited = Inr (True, v)) \<longleftrightarrow> ?M"
    using none by (cases "find (entry_matches ?t) visited") (auto simp: scan)
  have d: "\<not> ?M \<longrightarrow> isVulnerableCNAME name visited = Inr (False, False)"
  proof
    assume "\<not> ?M"
    with none have "find (entry_matches ?t) visited = None" by blast
    then show "isVulnerableCNAME name visited = Inr (False, False)" by (simp add: scan)
  qed
  have e: "isVulnerableCNAME ''shop.myshopify.com.'' [shopify] = Inr (True, True)"
    by (simp add: isVulnerableCNAME_def shopify_def TrimSuffix_def HasSuffix_def)
  from a b c d e show ?thesis by blast
qed

theorem isVulnerableCNAME_trims_one_dot_then_suffix_witness:
  "list_all well_shaped [shopify]
   \<and> TrimSuffix (''shop.myshopify.com.'' @ ''.'') ''.'' = ''shop.myshopify.com.''
   \<and> (\<exists>v. isVulnerableCNAME ''shop.myshopify.com.'' [shopify] = Inr (True, v))
   \<and> isVulnerableCNAME ''x.randomhost.net'' [shopify] = Inr (False, False)"
proof -
  have h: "list_all well_shaped [shopify]"
    by (simp add: well_shaped_def patterns_of_def verdict_of_def shopify_def)
  have p: "patterns_of shopify = Some [''myshopify.com'']"
    by (simp add: patterns_of_def shopify_def)
  have t1: "TrimSuffix ''shop.myshopify.com.'' ''.'' = ''shop.myshopify.com''"
    by (simp add: TrimSuffix_def HasSuffix_def)
  have t2: "TrimSuffix ''x.randomhost.net'' ''.'' = ''x.randomhost.net''"
    by (simp add: TrimSuffix_def HasSuffix_def)
  have s1: "suffix ''myshopify.com'' ''shop.myshopify.com''"
    by (simp add: HasSuffix_iff_suffix [symmetric] HasSuffix_def)
  have s2: "\<not> suffix ''myshopify.com'' ''x.randomhost.net''"
    by (simp add: HasSuffix_iff_suffix [symmetric] HasSuffix_def)
  note w1 = isVulnerableCNAME_trims_one_dot_then_suffix
              [OF h, of "''shop.myshopify.com.''" "''shop.myshopify.com.''"]
  note w2 = isVulnerableCNAME_trims_one_dot_then_suffix
              [OF h, of "''shop.myshopify.com.''" "''x.randomhost.net''"]
  have m1: "\<exists>f\<in>set [shopify]. \<exists>ps. patterns_of f = Some ps
                \<and> (\<exists>p\<in>set ps. suffix p (TrimSuffix ''shop.myshopify.com.'' ''.''))"
    using p t1 s1 by simp
  have m2: "\<not> (\<exists>f\<in>set [shopify]. \<exists>ps. patterns_of f = Some ps
                \<and> (\<exists>p\<in>set ps. suffix p (TrimSuffix ''x.randomhost.net'' ''.'')))"
    using p t2 s2 by simp
  from w1 have a: "TrimSuffix (''shop.myshopify.com.'' @ ''.'') ''.'' = ''shop.myshopify.com.''"
    by (rule conjunct1)
  from w1 m1 have b: "\<exists>v. isVulnerableCNAME ''shop.myshopify.com.'' [shopify] = Inr (True, v)"
    by blast
  from w2 m2 have c: "isVulnerableCNAME ''x.randomhost.net'' [shopify] = Inr (False, False)"
    by blast
  from h a b c show ?thesis by blast
qed

text \<open>
  C5. A result that carries an error, or whose resolved name is empty, is classified
  NoRecord: the call appends the one line \<open>No CNAME record found for: <domain>\<close> to
  \<open>notFound\<close> and changes no other bucket, whatever the store and the visiting order
  are (the store is not consulted, so no type assertion can fail).
\<close>

theorem processCNAMEResult_failed_or_empty_is_NoRecord:
  assumes "err r \<noteq> None \<or> cname r = []"
  shows "processCNAMEResult h r fps ks b =
           Inr (b\<lparr>notFound := notFound b @ [''No CNAME record found for: '' @ domain r]\<rparr>)
       \<and> (\<forall>b'. processCNAMEResult h r fps ks b = Inr b' \<longrightarrow>
             unknownExploitability b' = unknownExploitability b
           \<and> isExploitable b' = isExploitable b
           \<and> notExploitable b' = notExploitable b)"
  using assms by (auto simp: processCNAMEResult_def)

theorem processCNAMEResult_failed_or_empty_is_NoRecord_witness:
  "err (queryAndSendCNAME example_dig ''b.test'') = Some ''no CNAME record found or dig command failed''
   \<and> processCNAMEResult no_helpers (queryAndSendCNAME example_dig ''b.test'')
         two_entry_store [''first'', ''second''] no_buckets
       = Inr (no_buckets\<lparr>notFound := [''No CNAME record found for: b.test'']\<rparr>)"
proof -
  have e: "err (queryAndSendCNAME example_dig ''b.test'')
             = Some ''no CNAME record found or dig command failed''"
    by (simp add: queryAndSendCNAME_def example_dig_def)
  then have h: "err (queryAndSendCNAME example_dig ''b.test'') \<noteq> None
      \<or> cname (queryAndSendCNAME example_dig ''b.test'') = []"
    by simp
  have d: "domain (queryAndSendCNAME example_dig ''b.test'') = ''b.test''"
    by (simp add: queryAndSendCNAME_def example_dig_def)
  from processCNAMEResult_failed_or_empty_is_NoRecord [OF h, of no_helpers two_entry_store
      "[''first'', ''second'']" no_buckets]
  have "processCNAMEResult no_helpers (queryAndSendCNAME example_dig ''b.test'')
         two_entry_store [''first'', ''second''] no_buckets
       = Inr (no_buckets\<lparr>notFound := notFound no_buckets @ [''No CNAME record found for: ''
            @ domain (queryAndSendCNAME example_dig ''b.test'')]\<rparr>)"
    by (rule conjunct1)
  then show ?thesis
    using e by (simp add: d no_buckets_def)
qed

text \<open>
  C6. In every state a run of the pipeline passes through, at most 20 workers are in
  their resolution call: every worker in its resolution call holds a slot of the
  semaphore, the slots held are as many as the semaphore counts, and the semaphore never
  counts more than its capacity 20 (\<open>maxConcurrency\<close>). The slot is given back whatever
  the resolution yields: a worker in its resolution call can always finish it, with the
  result \<open>queryAndSendCNAME\<close> builds from the output (an error result when \<open>dig\<close>
  failed or printed nothing); a worker can send whatever result it holds, failure or
  not, as soon as the queue has room; a worker that has sent can always run its deferred
  release; and so, from any state with room in the queue, a worker in its resolution call
  runs on its own to the state in which its result is queued and the semaphore counts one
  less.
\<close>

theorem at_most_maxConcurrency_calls_in_flight:
  assumes "reachable e cs s"
  shows "size (filter_mset resolving (workers s)) \<le> 20
       \<and> size (filter_mset holds_slot (workers s)) = sem s \<and> sem s \<le> 20
       \<and> (\<forall>w\<in>#workers s. resolving w \<longrightarrow> holds_slot w)
       \<and> (\<forall>d. halted s = None \<and> (d, Querying) \<in># workers s \<longrightarrow>
            step e s (s\<lparr>workers := workers s - {#(d, Querying)#}
                                     + {#(d, Sending (queryAndSendCNAME (dig e) d))#}\<rparr>))
       \<and> (\<forall>d r. halted s = None \<and> (d, Sending r) \<in># workers s
              \<and> length (results s) < results_capacity \<longrightarrow>
            step e s (s\<lparr>results := results s @ [r],
                        workers := workers s - {#(d, Sending r)#} + {#(d, Releasing)#}\<rparr>))
       \<and> (\<forall>d. halted s = None \<and> (d, Releasing) \<in># workers s \<longrightarrow>
            step e s (s\<lparr>sem := sem s - 1,
                        workers := workers s - {#(d, Releasing)#} + {#(d, Finishing)#}\<rparr>))
       \<and> (\<forall>d. halted s = None \<and> (d, Querying) \<in># workers s
              \<and> length (results s) < results_capacity \<longrightarrow>
            0 < sem s
            \<and> (step e)\<^sup>*\<^sup>* s
                 (s\<lparr>sem := sem s - 1,
                    results := results s @ [queryAndSendCNAME (dig e) d],
                    workers := workers s - {#(d, Querying)#} + {#(d, Finishing)#}\<rparr>))
       \<and> (\<forall>d. snd (dig e d) \<or> fst (dig e d) = [] \<longrightarrow>
            err (queryAndSendCNAME (dig e) d) \<noteq> None)"
proof -
  from assms have inv: "slots_inv s" by (rule slots_inv_reachable)
  from assms have bar: "barrier_inv s" by (rule barrier_inv_reachable)
  have sub: "resolving w \<longrightarrow> holds_slot w" for w
    by (simp add: resolving_def holds_slot_def)
  then have "filter_mset resolving (workers s) \<subseteq># filter_mset holds_slot (workers s)"
    by (intro filter_mset_mono_strong) simp_all
  then have "size (filter_mset resolving (workers s)) \<le> size (filter_mset holds_slot (workers s))"
    by (rule size_mset_mono)
  with inv have a: "size (filter_mset resolving (workers s)) \<le> 20"
    by (simp add: slots_inv_def maxConcurrency_def)
  from inv have b: "size (filter_mset holds_slot (workers s)) = sem s \<and> sem s \<le> 20"
    by (simp add: slots_inv_def maxConcurrency_def)
  have c: "\<forall>w\<in>#workers s. resolving w \<longrightarrow> holds_slot w"
    using sub by blast
  have pos: "0 < sem s" if m: "(d, ph) \<in># workers s" and p: "ph \<noteq> Finishing" for d ph
  proof -
    from m have "0 < size (filter_mset holds_slot (workers s))"
      by (rule size_filter_pos) (simp add: holds_slot_def p)
    with inv show ?thesis by (simp add: slots_inv_def)
  qed
  have q: "step e s (s\<lparr>workers := workers s - {#(d, Querying)#}
                                     + {#(d, Sending (queryAndSendCNAME (dig e) d))#}\<rparr>)"
    if "halted s = None" "(d, Querying) \<in># workers s" for d
    using that by (rule step.query)
  have sd: "step e s (s\<lparr>results := results s @ [r],
                        workers := workers s - {#(d, Sending r)#} + {#(d, Releasing)#}\<rparr>)"
    if h: "halted s = None" and m: "(d, Sending r) \<in># workers s"
      and l: "length (results s) < results_capacity" for d r
  proof -
    from bar m have "\<not> closed s" by (auto simp: barrier_inv_def)
    with h m show ?thesis using l by (rule step.send)
  qed
  have rl: "step e s (s\<lparr>sem := sem s - 1,
                        workers := workers s - {#(d, Releasing)#} + {#(d, Finishing)#}\<rparr>)"
    if h: "halted s = None" and m: "(d, Releasing) \<in># workers s" for d
  proof -
    from m have "0 < sem s" by (rule pos) simp
    with h m show ?thesis by (rule step.release)
  qed
  have run: "0 < sem s
            \<and> (step e)\<^sup>*\<^sup>* s
                 (s\<lparr>sem := sem s - 1,
                    results := results s @ [queryAndSendCNAME (dig e) d],
                    workers := workers s - {#(d, Querying)#} + {#(d, Finishing)#}\<rparr>)"
    if h: "halted s = None" and m: "(d, Querying) \<in># workers s"
      and l: "length (results s) < results_capacity" for d
    using pos [OF m] worker_runs_to_release [OF assms h m l] by simp
  have f: "err (queryAndSendCNAME (dig e) d) \<noteq> None" if "snd (dig e d) \<or> fst (dig e d) = []" for d
    using that by (cases "dig e d") (auto simp: queryAndSendCNAME_def)
  from a b c q sd rl run f show ?thesis by blast
qed


theorem at_most_maxConcurrency_calls_in_flight_witness:
  "reachable (example_env shopify_store) (replicate 21 ''b.test'') full_state
   \<and> size (filter_mset resolving (workers full_state)) = 20
   \<and> todo full_state = [''b.test'']
   \<and> perform (example_env shopify_store) Launch full_state = None
   \<and> (\<nexists>s'. step (example_env shopify_store) full_state s'
            \<and> 20 < size (filter_mset resolving (workers s')))
   \<and> err (queryAndSendCNAME example_dig ''b.test'')
       = Some ''no CNAME record found or dig command failed''
   \<and> (step (example_env shopify_store))\<^sup>*\<^sup>* full_state one_released_state
   \<and> sem full_state = 20 \<and> sem one_released_state = 19"
proof -
  let ?E = "example_env shopify_store"
  from reachable.start full_state_run [of ?E]
  have r: "reachable ?E (replicate 21 ''b.test'') full_state"
    by (rule run_schedule_reachable)
  have n: "size (filter_mset resolving (workers full_state)) = 20"
    by (simp add: full_state_def filter_replicate_mset_same resolving_def)
  have l: "perform ?E Launch full_state = None"
    by (simp add: full_state_def maxConcurrency_def)
  have b: "\<nexists>s'. step ?E full_state s' \<and> 20 < size (filter_mset resolving (workers s'))"
  proof
    assume "\<exists>s'. step ?E full_state s' \<and> 20 < size (filter_mset resolving (workers s'))"
    then obtain s' where s: "step ?E full_state s'"
      and g: "20 < size (filter_mset resolving (workers s'))" by blast
    from r s have "reachable ?E (replicate 21 ''b.test'') s'" by (rule reachable.after)
    from at_most_maxConcurrency_calls_in_flight [OF this]
    have "size (filter_mset resolving (workers s')) \<le> 20" by (rule conjunct1)
    with g show False by simp
  qed
  have e: "err (queryAndSendCNAME example_dig ''b.test'')
       = Some ''no CNAME record found or dig command failed''"
    by (simp add: example_query_b no_record_result_def)
  have "replicate_mset (Suc 19) (''b.test'', Querying)
          = add_mset (''b.test'', Querying) (replicate_mset 19 (''b.test'', Querying))"
    by (rule replicate_mset_Suc)
  then have w: "replicate_mset 20 (''b.test'', Querying)
          = add_mset (''b.test'', Querying) (replicate_mset 19 (''b.test'', Querying))"
    by simp
  have h: "halted full_state = None" "(''b.test'', Querying) \<in># workers full_state"
    "length (results full_state) < results_capacity"
    by (simp_all add: full_state_def w results_capacity_def)
  have q: "full_state\<lparr>sem := sem full_state - 1,
              results := results full_state @ [queryAndSendCNAME (dig ?E) ''b.test''],
              workers := workers full_state - {#(''b.test'', Querying)#}
                           + {#(''b.test'', Finishing)#}\<rparr> = one_released_state"
    by (simp add: full_state_def one_released_state_def w example_env_def example_query_b)
  from at_most_maxConcurrency_calls_in_flight [OF r] h
  have "(step ?E)\<^sup>*\<^sup>* full_state
          (full_state\<lparr>sem := sem full_state - 1,
              results := results full_state @ [queryAndSendCNAME (dig ?E) ''b.test''],
              workers := workers full_state - {#(''b.test'', Querying)#}
                           + {#(''b.test'', Finishing)#}\<rparr>)"
    by blast
  then have s: "(step ?E)\<^sup>*\<^sup>* full_state one_released_state"
    by (simp only: q)
  from r n l b e s show ?thesis
    by (simp add: full_state_def one_released_state_def)
qed

text \<open>
  C7, on the code: every candidate is accounted for at every moment
  (\<open>every_candidate_accounted_for\<close> above: not yet scanned, with a worker, in the
  queue, or classified into exactly one bucket entry), but the process can end before the
  consumer has classified a queued result. On the one candidate \<open>a.test\<close> the run
  below ends, with no step left, with one result produced and no bucket entry.
\<close>

theorem candidate_unclassified_at_exit:
  "reachable (example_env shopify_store) [''a.test''] lost_state
   \<and> halted lost_state = Some ExitNormally
   \<and> (\<nexists>s'. step (example_env shopify_store) lost_state s')
   \<and> results lost_state = [queryAndSendCNAME example_dig ''a.test'']
   \<and> bucket_entries (bkts lost_state) = 0"
proof -
  have "run_schedule (example_env shopify_store) (early_report_schedule @ [ExitProcess])
          (init [''a.test'']) = Some lost_state"
    by (simp add: early_report_schedule_def lost_state_def undrained_state_def init_def
      example_env_def example_query_a maxConcurrency_def results_capacity_def writeResults_def
      no_buckets_def)
  with reachable.start have r: "reachable (example_env shopify_store) [''a.test''] lost_state"
    by (rule run_schedule_reachable)
  have n: "\<nexists>s'. step (example_env shopify_store) lost_state s'"
    using halted_no_step [of "example_env shopify_store" lost_state]
    by (auto simp: lost_state_def)
  from r n show ?thesis
    by (simp add: lost_state_def undrained_state_def bucket_entries_def no_buckets_def
        example_query_a)
qed

text \<open>
  C8, as stated, fails in "each item rendered as one bulleted line": an item is written
  as \<open>- item\<close> and a line feed, and the resolved name inside an item is the trimmed
  output of \<open>dig\<close>, which keeps the line feeds between its lines. On the candidate
  \<open>m.test\<close>, for which \<open>dig\<close> prints two lines, a run in which the consumer has
  classified the result before the report is written renders the one Exploitable item as
  two lines, the second without a bullet.
\<close>

theorem item_with_line_feed_is_two_lines_counterexample:
  "reachable two_line_env [''m.test''] two_line_state
   \<and> todo two_line_state = [] \<and> workers two_line_state = {#} \<and> results two_line_state = []
   \<and> isExploitable (bkts two_line_state) = [two_line_item]
   \<and> report two_line_state
       = Some [''### Is Exploitable'' @ nl @ nl, ''- '' @ two_line_item @ nl, nl]
   \<and> nonempty_lines (concat [''### Is Exploitable'' @ nl @ nl, ''- '' @ two_line_item @ nl, nl])
       = [''### Is Exploitable'',
          ''- CNAME for m.test is: x.other.net.'',
          ''shop.myshopify.com. (found matching fingerprint - vulnerable)'']"
proof -
  from reachable.start two_line_run
  have r: "reachable two_line_env [''m.test''] two_line_state"
    by (rule run_schedule_reachable)
  have l: "nonempty_lines (concat [''### Is Exploitable'' @ nl @ nl, ''- '' @ two_line_item @ nl, nl])
       = [''### Is Exploitable'',
          ''- CNAME for m.test is: x.other.net.'',
          ''shop.myshopify.com. (found matching fingerprint - vulnerable)'']"
    by (simp add: nonempty_lines_def two_line_item_def nl_def)
  from r l show ?thesis
    by (simp add: two_line_state_def)
qed

text \<open>
  C8, amended. \<open>writeResults\<close> writes, for each non-empty bucket among Exploitable,
  NotExploitable and Unknown, in that order, a title and then one string \<open>- item\<close>
  ended by a line feed per item, and nothing else but blank-line separators. The lines of
  the file are therefore, section by section, the title and each item cut at its line
  feeds: an item that holds no line feed is one bulleted line (and when no item holds
  one, the non-empty lines of the file are exactly the lines the spec describes); an item
  that holds one spans several lines, the bullet being written once, before the item. The
  NoRecord bucket has no influence on the report. On an empty candidate list every bucket
  stays empty in every reachable state and a report, once written, is empty.
\<close>

theorem report_sections_per_nonempty_bucket:
  "(\<exists>chunks. writeResults True b = Some chunks
       \<and> filter (\<lambda>c. c \<noteq> nl) chunks =
           concat (map (\<lambda>(title, items).
                     (''### '' @ title @ nl @ nl) # map (\<lambda>item. ''- '' @ item @ nl) items)
                   (spec_sections b))
       \<and> nonempty_lines (concat chunks) =
           concat (map (\<lambda>(title, items).
                     (''### '' @ title)
                       # concat (map (\<lambda>item. nonempty_lines (''- '' @ item)) items))
                   (spec_sections b)))
   \<and> (CHR 0x0A \<notin> set item \<longrightarrow> nonempty_lines (''- '' @ item) = [''- '' @ item])
   \<and> (CHR 0x0A \<notin> set x \<and> CHR 0x0A \<notin> set y \<and> y \<noteq> []
        \<longrightarrow> nonempty_lines (''- '' @ (x @ nl @ y)) = [''- '' @ x, y])
   \<and> ((\<forall>item\<in>set (isExploitable b @ notExploitable b @ unknownExploitability b).
        CHR 0x0A \<notin> set item)
      \<longrightarrow> (\<exists>chunks. writeResults True b = Some chunks
             \<and> nonempty_lines (concat chunks) = spec_lines b))
   \<and> writeResults c (b\<lparr>notFound := nf\<rparr>) = writeResults c b
   \<and> (reachable e [] s \<longrightarrow> bkts s = no_buckets \<and> (report s = None \<or> report s = Some []))"
proof -
  from report_chunks [of b] report_lines_split [of b]
  have a: "\<exists>chunks. writeResults True b = Some chunks
       \<and> filter (\<lambda>c. c \<noteq> nl) chunks =
           concat (map (\<lambda>(title, items).
                     (''### '' @ title @ nl @ nl) # map (\<lambda>item. ''- '' @ item @ nl) items)
                   (spec_sections b))
       \<and> nonempty_lines (concat chunks) =
           concat (map (\<lambda>(title, items).
                     (''### '' @ title)
                       # concat (map (\<lambda>item. nonempty_lines (''- '' @ item)) items))
                   (spec_sections b))"
    by auto
  have b: "CHR 0x0A \<notin> set item \<longrightarrow> nonempty_lines (''- '' @ item) = [''- '' @ item]"
    using bullet_one_line [of item] by blast
  have b2: "CHR 0x0A \<notin> set x \<and> CHR 0x0A \<notin> set y \<and> y \<noteq> []
        \<longrightarrow> nonempty_lines (''- '' @ (x @ nl @ y)) = [''- '' @ x, y]"
  proof
    assume h: "CHR 0x0A \<notin> set x \<and> CHR 0x0A \<notin> set y \<and> y \<noteq> []"
    then have n: "CHR 0x0A \<notin> set (''- '' @ x)" by simp
    have "''- '' @ (x @ nl @ y) = (''- '' @ x) @ CHR 0x0A # y"
      by (simp add: nl_def)
    then have "nonempty_lines (''- '' @ (x @ nl @ y))
        = lines_from [] ((''- '' @ x) @ CHR 0x0A # y)"
      by (simp only: nonempty_lines_def)
    also have "\<dots> = [''- '' @ x] @ lines_from [] y"
      using lines_from_line [OF n, of "[]" y] by simp
    also have "lines_from [] y = [y]"
      using h by (simp add: lines_from_no_feed)
    finally show "nonempty_lines (''- '' @ (x @ nl @ y)) = [''- '' @ x, y]"
      by simp
  qed
  have c: "(\<forall>item\<in>set (isExploitable b @ notExploitable b @ unknownExploitability b).
        CHR 0x0A \<notin> set item)
      \<longrightarrow> (\<exists>chunks. writeResults True b = Some chunks
             \<and> nonempty_lines (concat chunks) = spec_lines b)"
    using report_lines [of b] by blast
  have d: "writeResults c (b\<lparr>notFound := nf\<rparr>) = writeResults c b"
    by (simp add: writeResults_def)
  have e: "reachable e [] s \<longrightarrow> bkts s = no_buckets \<and> (report s = None \<or> report s = Some [])"
    using empty_run [of e s] by blast
  from a b b2 c d e show ?thesis by (intro conjI)
qed

theorem report_sections_per_nonempty_bucket_witness:
  "(\<exists>chunks. writeResults True three_buckets = Some chunks
      \<and> nonempty_lines (concat chunks) =
          [''### Is Exploitable'',
           ''- CNAME for a.test is: x.one.example (found matching fingerprint - vulnerable)'',
           ''### Not Exploitable'',
           ''- CNAME for c.test is: y.two.example (found matching fingerprint - safe)'',
           ''- CNAME for d.test is: z.two.example (found matching fingerprint - safe)'',
           ''### Exploitability Unknown'',
           ''- CNAME for e.test is: x.randomhost.net''])
   \<and> (\<exists>chunks. writeResults True (bkts two_line_state) = Some chunks
      \<and> nonempty_lines (concat chunks) =
          [''### Is Exploitable'',
           ''- CNAME for m.test is: x.other.net.'',
           ''shop.myshopify.com. (found matching fingerprint - vulnerable)''])
   \<and> reachable (example_env shopify_store) [] empty_report_state
   \<and> bkts empty_report_state = no_buckets
   \<and> report empty_report_state = Some []"
proof -
  have h: "\<forall>item\<in>set (isExploitable three_buckets @ notExploitable three_buckets
              @ unknownExploitability three_buckets). CHR 0x0A \<notin> set item"
    by (simp add: three_buckets_def)
  have l: "spec_lines three_buckets =
          [''### Is Exploitable'',
           ''- CNAME for a.test is: x.one.example (found matching fingerprint - vulnerable)'',
           ''### Not Exploitable'',
           ''- CNAME for c.test is: y.two.example (found matching fingerprint - safe)'',
           ''- CNAME for d.test is: z.two.example (found matching fingerprint - safe)'',
           ''### Exploitability Unknown'',
           ''- CNAME for e.test is: x.randomhost.net'']"
    by (simp add: spec_lines_def spec_sections_def three_buckets_def)
  have "run_schedule (example_env shopify_store)
          [ScanEnd, WaitDone, CloseResults, ConsumerEnd, WriteReport] (init [])
        = Some empty_report_state"
    by (simp add: empty_report_state_def init_def example_env_def writeResults_def no_buckets_def)
  with reachable.start
  have r: "reachable (example_env shopify_store) [] empty_report_state"
    by (rule run_schedule_reachable)
  note t = report_sections_per_nonempty_bucket [where b = three_buckets
      and e = "example_env shopify_store" and s = empty_report_state]
  from t h have a: "\<exists>chunks. writeResults True three_buckets = Some chunks
      \<and> nonempty_lines (concat chunks) = spec_lines three_buckets"
    by blast
  have s2: "spec_sections (bkts two_line_state) = [(''Is Exploitable'', [two_line_item])]"
    by (simp add: spec_sections_def two_line_state_def no_buckets_def)
  have l2: "nonempty_lines (''- '' @ two_line_item) =
      [''- CNAME for m.test is: x.other.net.'',
       ''shop.myshopify.com. (found matching fingerprint - vulnerable)'']"
    by (simp add: nonempty_lines_def two_line_item_def nl_def)
  from report_sections_per_nonempty_bucket [where b = "bkts two_line_state"]
  have "\<exists>chunks. writeResults True (bkts two_line_state) = Some chunks
      \<and> nonempty_lines (concat chunks) =
           concat (map (\<lambda>(title, items).
                     (''### '' @ title)
                       # concat (map (\<lambda>item. nonempty_lines (''- '' @ item)) items))
                   (spec_sections (bkts two_line_state)))"
    by blast
  then have b: "\<exists>chunks. writeResults True (bkts two_line_state) = Some chunks
      \<and> nonempty_lines (concat chunks) =
          [''### Is Exploitable'',
           ''- CNAME for m.test is: x.other.net.'',
           ''shop.myshopify.com. (found matching fingerprint - vulnerable)'']"
    using l2 by (simp add: s2)
  from a b l r show ?thesis
    by (simp add: empty_report_state_def)
qed

text \<open>
  C9, as stated, fails: the visiting order of the \<open>range\<close> statement is not an input
  the caller controls, and two classifications of the same result against the same store
  differ when it differs. On the two-entry store the result \<open>d.test \<rightarrow> x.a.example\<close>
  goes to \<open>notExploitable\<close> under one order and to \<open>isExploitable\<close> under the other.
\<close>

theorem classification_depends_on_visiting_order_counterexample:
  "range_order two_entry_store [''first'', ''second'']
   \<and> range_order two_entry_store [''second'', ''first'']
   \<and> isVulnerableCNAME (cname a_example_result)
         (range_values two_entry_store [''first'', ''second'']) = Inr (True, False)
   \<and> isVulnerableCNAME (cname a_example_result)
         (range_values two_entry_store [''second'', ''first'']) = Inr (True, True)
   \<and> processCNAMEResult no_helpers a_example_result two_entry_store [''first'', ''second''] no_buckets
       = Inr (no_buckets\<lparr>notExploitable :=
                [''CNAME for d.test is: x.a.example (found matching fingerprint - safe)'']\<rparr>)
   \<and> processCNAMEResult no_helpers a_example_result two_entry_store [''second'', ''first''] no_buckets
       = Inr (no_buckets\<lparr>isExploitable :=
                [''CNAME for d.test is: x.a.example (found matching fingerprint - vulnerable)'']\<rparr>)"
proof -
  have v1: "isVulnerableCNAME ''x.a.example'' (range_values two_entry_store [''first'', ''second''])
              = Inr (True, False)"
    by (simp add: range_values_def two_entry_store_def first_entry_def
        second_entry_def isVulnerableCNAME_def TrimSuffix_def HasSuffix_def)
  have v2: "isVulnerableCNAME ''x.a.example'' (range_values two_entry_store [''second'', ''first''])
              = Inr (True, True)"
    by (simp add: range_values_def two_entry_store_def first_entry_def
        second_entry_def isVulnerableCNAME_def TrimSuffix_def HasSuffix_def)
  have p1: "processCNAMEResult no_helpers a_example_result two_entry_store [''first'', ''second''] no_buckets
       = Inr (no_buckets\<lparr>notExploitable :=
                [''CNAME for d.test is: x.a.example (found matching fingerprint - safe)'']\<rparr>)"
    by (simp add: processCNAMEResult_def a_example_result_def v1 ifThenElse_def
        appendResultBasedOnVulnerability_def no_buckets_def)
  have p2: "processCNAMEResult no_helpers a_example_result two_entry_store [''second'', ''first''] no_buckets
       = Inr (no_buckets\<lparr>isExploitable :=
                [''CNAME for d.test is: x.a.example (found matching fingerprint - vulnerable)'']\<rparr>)"
    by (simp add: processCNAMEResult_def a_example_result_def v2 ifThenElse_def
        appendResultBasedOnVulnerability_def no_buckets_def)
  show ?thesis
    using v1 v2 p1 p2 by (simp add: two_entry_orders a_example_result_def)
qed

text \<open>
  C9, amended. Classification is a function of the result, the store, the buckets before
  the call and the order in which the \<open>range\<close> statement visits the store (the two
  functions missing from main.go taken as functions of their arguments). For a store of
  the spec's shape in which the entries that match the resolved name agree on
  \<open>vulnerable\<close>, every visiting order gives the same buckets.
\<close>

theorem classification_same_for_every_visiting_order:
  assumes o1: "range_order fps ks1" and o2: "range_order fps ks2"
    and w: "\<forall>k\<in>dom fps. well_shaped (the (fps k))"
    and agree: "\<forall>k\<in>dom fps. \<forall>k'\<in>dom fps.
        entry_matches (TrimSuffix (cname r) ''.'') (the (fps k))
        \<and> entry_matches (TrimSuffix (cname r) ''.'') (the (fps k'))
        \<longrightarrow> verdict_of (the (fps k)) = verdict_of (the (fps k'))"
  shows "processCNAMEResult h r fps ks1 b = processCNAMEResult h r fps ks2 b"
proof -
  let ?P = "\<lambda>k. entry_matches (TrimSuffix (cname r) ''.'') (the (fps k))"
  let ?g = "\<lambda>k. the (verdict_of (the (fps k)))"
  have s: "set ks1 = set ks2"
    using o1 o2 by (simp add: range_order_def)
  have d: "set ks1 = dom fps"
    using o1 by (simp add: range_order_def)
  have "map_option ?g (find ?P ks1) = map_option ?g (find ?P ks2)"
  proof (rule find_agree [OF s])
    fix x y
    assume xy: "x \<in> set ks1" "y \<in> set ks1" and m: "?P x" "?P y"
    from xy d have "x \<in> dom fps" "y \<in> dom fps" by simp_all
    with agree m have "verdict_of (the (fps x)) = verdict_of (the (fps y))" by blast
    then show "?g x = ?g y" by simp
  qed
  moreover have "isVulnerableCNAME (cname r) (range_values fps ks) =
      (case map_option ?g (find ?P ks) of None \<Rightarrow> Inr (False, False) | Some v \<Rightarrow> Inr (True, v))"
    if "range_order fps ks" for ks
    by (simp add: isVulnerableCNAME_find [OF that w] split: option.splits)
  ultimately have "isVulnerableCNAME (cname r) (range_values fps ks1)
      = isVulnerableCNAME (cname r) (range_values fps ks2)"
    using o1 o2 by metis
  then show ?thesis
    by (simp add: processCNAMEResult_def)
qed

theorem classification_same_for_every_visiting_order_witness:
  "range_order agreeing_store [''shopify'', ''alias'']
   \<and> range_order agreeing_store [''alias'', ''shopify'']
   \<and> entry_matches (TrimSuffix (cname shop_result) ''.'') shopify
   \<and> entry_matches (TrimSuffix (cname shop_result) ''.'') shopify_alias
   \<and> processCNAMEResult no_helpers shop_result agreeing_store [''shopify'', ''alias''] no_buckets
       = processCNAMEResult no_helpers shop_result agreeing_store [''alias'', ''shopify''] no_buckets"
proof -
  have d: "dom agreeing_store = {''shopify'', ''alias''}"
    by (auto simp: agreeing_store_def)
  have o1: "range_order agreeing_store [''shopify'', ''alias'']"
    by (simp add: range_order_def d)
  have o2: "range_order agreeing_store [''alias'', ''shopify'']"
    by (auto simp: range_order_def d)
  have v: "verdict_of shopify = Some True" "verdict_of shopify_alias = Some True"
    by (simp_all add: verdict_of_def shopify_def shopify_alias_def)
  have p: "patterns_of shopify = Some [''myshopify.com'']"
    "patterns_of shopify_alias = Some [''shopify.example'', ''.myshopify.com'']"
    by (simp_all add: patterns_of_def shopify_def shopify_alias_def)
  have g: "the (agreeing_store ''shopify'') = shopify" "the (agreeing_store ''alias'') = shopify_alias"
    by (simp_all add: agreeing_store_def)
  have w: "\<forall>k\<in>dom agreeing_store. well_shaped (the (agreeing_store k))"
    by (auto simp: d g well_shaped_def v p)
  have a: "\<forall>k\<in>dom agreeing_store. \<forall>k'\<in>dom agreeing_store.
        entry_matches (TrimSuffix (cname shop_result) ''.'') (the (agreeing_store k))
        \<and> entry_matches (TrimSuffix (cname shop_result) ''.'') (the (agreeing_store k'))
        \<longrightarrow> verdict_of (the (agreeing_store k)) = verdict_of (the (agreeing_store k'))"
    by (simp add: d g v)
  have m: "entry_matches (TrimSuffix (cname shop_result) ''.'') shopify"
    "entry_matches (TrimSuffix (cname shop_result) ''.'') shopify_alias"
    by (simp_all add: entry_matches_def p shop_result_def TrimSuffix_def HasSuffix_def)
  from classification_same_for_every_visiting_order [OF o1 o2 w a, of no_helpers no_buckets]
    o1 o2 m
  show ?thesis by simp
qed

text \<open>
  C10, as stated, fails in its second half: a store that holds a malformed entry does
  not make every classification panic. An entry whose \<open>vulnerable\<close> is a string is
  scanned without a panic when its pattern does not match, and a failed resolution is
  classified without the store being read at all.
\<close>

theorem malformed_store_without_panic_counterexample:
  "\<not> well_shaped unchecked_entry
   \<and> isVulnerableCNAME ''x.randomhost.net'' [unchecked_entry] = Inr (False, False)
   \<and> processCNAMEResult no_helpers (queryAndSendCNAME example_dig ''b.test'')
         [''svc'' \<mapsto> unchecked_entry] [''svc''] no_buckets
       = Inr (no_buckets\<lparr>notFound := [''No CNAME record found for: b.test'']\<rparr>)"
proof -
  have a: "\<not> well_shaped unchecked_entry"
    by (simp add: unchecked_entry_def well_shaped_def verdict_of_def)
  have b: "isVulnerableCNAME ''x.randomhost.net'' [unchecked_entry] = Inr (False, False)"
    by (simp add: unchecked_entry_def isVulnerableCNAME_def TrimSuffix_def HasSuffix_def)
  have c: "processCNAMEResult no_helpers (queryAndSendCNAME example_dig ''b.test'')
         [''svc'' \<mapsto> unchecked_entry] [''svc''] no_buckets
       = Inr (no_buckets\<lparr>notFound := [''No CNAME record found for: b.test'']\<rparr>)"
    by (simp add: processCNAMEResult_def queryAndSendCNAME_def example_dig_def no_buckets_def)
  from a b c show ?thesis by blast
qed

text \<open>
  C10, amended. Over a store in which every entry has the spec's shape,
  \<open>isVulnerableCNAME\<close> returns a pair and does not panic. In general it panics exactly
  when the scan reaches a malformed field: when, after entries it passes over, it comes
  to an entry whose \<open>cname\<close> is missing or no array, or to a \<open>cname\<close> element that is
  no string with no matching pattern before it, or to a matching pattern of an entry
  whose \<open>vulnerable\<close> is no boolean. What the scan does not reach is not checked: it
  returns the verdict of the first matching entry whatever follows that pattern and that
  entry, and \<open>(false, false)\<close> when every entry is an array of non-matching strings,
  whatever the \<open>vulnerable\<close> fields are; and a failed or empty result is classified
  without a panic whatever the store is.
\<close>

theorem isVulnerableCNAME_panics_exactly_where_reached:
  "(isVulnerableCNAME name visited = Inl TypeAssertion \<longleftrightarrow>
      (\<exists>pre f post. visited = pre @ f # post
         \<and> (\<forall>g\<in>set pre. passes_over (TrimSuffix name ''.'') g)
         \<and> panics_at (TrimSuffix name ''.'') f))
   \<and> (isVulnerableCNAME name visited = Inr (True, v) \<longleftrightarrow>
      (\<exists>pre f post. visited = pre @ f # post
         \<and> (\<forall>g\<in>set pre. passes_over (TrimSuffix name ''.'') g)
         \<and> returns_at (TrimSuffix name ''.'') f v))
   \<and> (isVulnerableCNAME name visited = Inr (False, v) \<longleftrightarrow>
      \<not> v \<and> (\<forall>g\<in>set visited. passes_over (TrimSuffix name ''.'') g))
   \<and> (list_all well_shaped visited \<longrightarrow> (\<exists>r. isVulnerableCNAME name visited = Inr r))
   \<and> (err res \<noteq> None \<or> cname res = [] \<longrightarrow> (\<exists>b'. processCNAMEResult h res fps ks b = Inr b'))"
proof -
  have a: "isVulnerableCNAME name visited = Inl TypeAssertion \<longleftrightarrow>
      (\<exists>pre f post. visited = pre @ f # post
         \<and> (\<forall>g\<in>set pre. passes_over (TrimSuffix name ''.'') g)
         \<and> panics_at (TrimSuffix name ''.'') f)"
    unfolding isVulnerableCNAME_def by (rule scan_panic_iff)
  have b: "isVulnerableCNAME name visited = Inr (True, v) \<longleftrightarrow>
      (\<exists>pre f post. visited = pre @ f # post
         \<and> (\<forall>g\<in>set pre. passes_over (TrimSuffix name ''.'') g)
         \<and> returns_at (TrimSuffix name ''.'') f v)"
    unfolding isVulnerableCNAME_def by (rule scan_match_iff)
  have c: "isVulnerableCNAME name visited = Inr (False, v) \<longleftrightarrow>
      \<not> v \<and> (\<forall>g\<in>set visited. passes_over (TrimSuffix name ''.'') g)"
    unfolding isVulnerableCNAME_def by (rule scan_no_match_iff)
  have d: "list_all well_shaped visited \<longrightarrow> (\<exists>r. isVulnerableCNAME name visited = Inr r)"
    by (auto simp: isVulnerableCNAME_def scan_fingerprints_well_shaped split: option.splits)
  have e: "err res \<noteq> None \<or> cname res = [] \<longrightarrow> (\<exists>b'. processCNAMEResult h res fps ks b = Inr b')"
    by (simp add: processCNAMEResult_def)
  from a b c d e show ?thesis by (intro conjI)
qed

theorem isVulnerableCNAME_panics_exactly_where_reached_witness:
  "isVulnerableCNAME ''shop.myshopify.com.'' [shopify, Map.empty, unchecked_entry] = Inr (True, True)
   \<and> isVulnerableCNAME ''x.a.example'' [shopify, unchecked_entry] = Inl TypeAssertion
   \<and> isVulnerableCNAME ''x.randomhost.net'' [shopify, unchecked_entry] = Inr (False, False)
   \<and> isVulnerableCNAME ''x.randomhost.net'' [shopify, Map.empty] = Inl TypeAssertion
   \<and> list_all well_shaped [shopify]
   \<and> (\<exists>r. isVulnerableCNAME ''x.a.example'' [shopify] = Inr r)"
proof -
  have t1: "TrimSuffix ''shop.myshopify.com.'' ''.'' = ''shop.myshopify.com''"
    and t2: "TrimSuffix ''x.a.example'' ''.'' = ''x.a.example''"
    and t3: "TrimSuffix ''x.randomhost.net'' ''.'' = ''x.randomhost.net''"
    by (simp_all add: TrimSuffix_def HasSuffix_def)
  have r1: "returns_at ''shop.myshopify.com'' shopify True"
    unfolding returns_at_def
    by (intro exI [of _ "[]"] exI [of _ "''myshopify.com''"]) (simp add: shopify_def HasSuffix_def)
  have p2: "passes_over ''x.a.example'' shopify"
    unfolding passes_over_def
    by (intro exI [of _ "[''myshopify.com'']"]) (simp add: shopify_def HasSuffix_def)
  have p3: "passes_over ''x.randomhost.net'' shopify"
    unfolding passes_over_def
    by (intro exI [of _ "[''myshopify.com'']"]) (simp add: shopify_def HasSuffix_def)
  have u2: "panics_at ''x.a.example'' unchecked_entry"
    unfolding panics_at_def
    by (intro disjI2 exI [of _ "[]"] exI [of _ "''a.example''"])
      (simp add: unchecked_entry_def HasSuffix_def)
  have u3: "passes_over ''x.randomhost.net'' unchecked_entry"
    unfolding passes_over_def
    by (intro exI [of _ "[''a.example'']"]) (simp add: unchecked_entry_def HasSuffix_def)
  have e3: "panics_at ''x.randomhost.net'' Map.empty"
    by (simp add: panics_at_def)
  have v: "verdict_of shopify = Some True" and p: "patterns_of shopify = Some [''myshopify.com'']"
    by (simp_all add: verdict_of_def patterns_of_def shopify_def)
  have w: "list_all well_shaped [shopify]"
    by (simp add: well_shaped_def p v)
  have d1: "\<exists>pre f post. [shopify, Map.empty, unchecked_entry] = pre @ f # post
         \<and> (\<forall>g\<in>set pre. passes_over (TrimSuffix ''shop.myshopify.com.'' ''.'') g)
         \<and> returns_at (TrimSuffix ''shop.myshopify.com.'' ''.'') f True"
    using r1 by (intro exI [of _ "[]"] exI [of _ shopify] exI [of _ "[Map.empty, unchecked_entry]"])
      (simp add: t1)
  have d2: "\<exists>pre f post. [shopify, unchecked_entry] = pre @ f # post
         \<and> (\<forall>g\<in>set pre. passes_over (TrimSuffix ''x.a.example'' ''.'') g)
         \<and> panics_at (TrimSuffix ''x.a.example'' ''.'') f"
    using p2 u2 by (intro exI [of _ "[shopify]"] exI [of _ unchecked_entry] exI [of _ "[]"])
      (simp add: t2)
  have d3: "\<forall>g\<in>set [shopify, unchecked_entry]. passes_over (TrimSuffix ''x.randomhost.net'' ''.'') g"
    using p3 u3 by (simp add: t3)
  have d4: "\<exists>pre f post. [shopify, Map.empty] = pre @ f # post
         \<and> (\<forall>g\<in>set pre. passes_over (TrimSuffix ''x.randomhost.net'' ''.'') g)
         \<and> panics_at (TrimSuffix ''x.randomhost.net'' ''.'') f"
    using p3 e3 by (intro exI [of _ "[shopify]"] exI [of _ Map.empty] exI [of _ "[]"])
      (simp add: t3)
  from isVulnerableCNAME_panics_exactly_where_reached
         [of "''shop.myshopify.com.''" "[shopify, Map.empty, unchecked_entry]" True] d1
  have a1: "isVulnerableCNAME ''shop.myshopify.com.'' [shopify, Map.empty, unchecked_entry]
              = Inr (True, True)"
    by simp
  from isVulnerableCNAME_panics_exactly_where_reached
         [of "''x.a.example''" "[shopify, unchecked_entry]"] d2
  have a2: "isVulnerableCNAME ''x.a.example'' [shopify, unchecked_entry] = Inl TypeAssertion"
    by simp
  from isVulnerableCNAME_panics_exactly_where_reached
         [of "''x.randomhost.net''" "[shopify, unchecked_entry]" False] d3
  have a3: "isVulnerableCNAME ''x.randomhost.net'' [shopify, unchecked_entry] = Inr (False, False)"
    by simp
  from isVulnerableCNAME_panics_exactly_where_reached
         [of "''x.randomhost.net''" "[shopify, Map.empty]"] d4
  have a4: "isVulnerableCNAME ''x.randomhost.net'' [shopify, Map.empty] = Inl TypeAssertion"
    by simp
  from isVulnerableCNAME_panics_exactly_where_reached [of "''x.a.example''" "[shopify]"] w
  have a5: "\<exists>r. isVulnerableCNAME ''x.a.example'' [shopify] = Inr r"
    by blast
  from a1 a2 a3 a4 w a5 show ?thesis by (intro conjI)
qed

end
